theory Spec2Isabelle
  imports Complex_Main "HOL-Library.Char_ord" "HOL-Library.List_Lexorder"
begin

section \<open>The expression compiler of the calculator service\<close>

text \<open>
  The service package turns the text of an arithmetic expression into tokens
  (\<open>tokenize\<close>), the tokens into postfix order (\<open>shuntingYard\<close>), and the postfix
  sequence into tasks of the scheduler store.  A Go \<open>string\<close> is a sequence of bytes
  and is modelled as \<^typ>\<open>string\<close>; an \<open>error\<close> built by \<open>fmt.Errorf\<close> is a value of
  the datatype below, which keeps the text that the message is formatted from.
\<close>

datatype error =
    InvalidCharacter string
  | MismatchedParentheses
  | NotEnoughOperands string
  | TooManyValues
  | TaskNotFound string
  | DivisionByZero
  | UnknownOperation string

text \<open>The four values of the Go type \<open>Operation\<close>, a string type.\<close>

type_synonym Operation = string

definition Addition :: Operation where
  "Addition = ''+''"

definition Subtraction :: Operation where
  "Subtraction = ''-''"

definition Multiplication :: Operation where
  "Multiplication = ''*''"

definition Division :: Operation where
  "Division = ''/''"

definition isOperator :: "string \<Rightarrow> bool" where
  "isOperator token \<longleftrightarrow> token = ''+'' \<or> token = ''-'' \<or> token = ''*'' \<or> token = ''/''"

text \<open>
  \<open>isNumber\<close> asks the library function \<open>strconv.ParseFloat\<close> whether it returns an
  error.  The library is not part of the repository: it is the parameter \<open>parseFloat\<close>,
  which returns the parsed value, or \<open>None\<close> where the library returns an error.
\<close>

definition isNumber :: "(string \<Rightarrow> 'v option) \<Rightarrow> string \<Rightarrow> bool" where
  "isNumber parseFloat token \<longleftrightarrow> parseFloat token \<noteq> None"

definition getPrecedence :: "string \<Rightarrow> int" where
  "getPrecedence operator =
     (if operator = ''+'' \<or> operator = ''-'' then 1
      else if operator = ''*'' \<or> operator = ''/'' then 2
      else 0)"

definition hasHigherPrecedence :: "string \<Rightarrow> string \<Rightarrow> bool" where
  "hasHigherPrecedence op1 op2 \<longleftrightarrow> getPrecedence op1 \<ge> getPrecedence op2"

subsection \<open>Tokenization\<close>

text \<open>
  The loop of \<open>tokenize\<close> reads the expression byte by byte and converts each byte with
  \<open>string(expression[i])\<close>.  That conversion takes the byte as a code point and yields
  its UTF-8 encoding: the byte itself below 128, and two bytes from 128 on.
\<close>

definition byteToString :: "char \<Rightarrow> string" where
  "byteToString b =
     (let n = (of_char b :: nat) in
      if n < 128 then [b]
      else [char_of (192 + n div 64), char_of (128 + n mod 64)])"

text \<open>
  The loop state is the pair of \<open>tokens\<close> and \<open>currentNumber\<close>.  The comparisons
  \<open>char >= "0" && char <= "9"\<close> compare strings, bytewise and lexicographically.
\<close>

fun tokenize_loop :: "string \<Rightarrow> string list \<Rightarrow> string \<Rightarrow> error + (string list \<times> string)" where
  "tokenize_loop [] tokens currentNumber = Inr (tokens, currentNumber)"
| "tokenize_loop (b # rest) tokens currentNumber =
     (let char = byteToString b in
      if (char \<ge> ''0'' \<and> char \<le> ''9'') \<or> char = ''.'' then
        tokenize_loop rest tokens (currentNumber @ char)
      else if isOperator char then
        (if currentNumber \<noteq> [] then tokenize_loop rest (tokens @ [currentNumber] @ [char]) []
         else tokenize_loop rest (tokens @ [char]) currentNumber)
      else if char = ''('' \<or> char = '')'' then
        (if currentNumber \<noteq> [] then tokenize_loop rest (tokens @ [currentNumber] @ [char]) []
         else tokenize_loop rest (tokens @ [char]) currentNumber)
      else Inl (InvalidCharacter char))"

definition tokenize :: "string \<Rightarrow> error + string list" where
  "tokenize expression =
     (case tokenize_loop expression [] [] of
        Inl err \<Rightarrow> Inl err
      | Inr (tokens, currentNumber) \<Rightarrow>
          if currentNumber \<noteq> [] then Inr (tokens @ [currentNumber]) else Inr tokens)"

subsection \<open>Conversion to postfix\<close>

text \<open>
  Both stacks of \<open>shuntingYard\<close> are Go slices that grow at the end: the top of
  \<open>operatorStack\<close> is its last element.  The inner loop of the operator case pops
  while the top is not \<open>(\<close> and has at least the precedence of the incoming token.
\<close>

function popOperators :: "string \<Rightarrow> string list \<Rightarrow> string list \<Rightarrow> string list \<times> string list" where
  "popOperators token output operatorStack =
     (if length operatorStack > 0 \<and> last operatorStack \<noteq> ''(''
         \<and> hasHigherPrecedence (last operatorStack) token
      then popOperators token (output @ [last operatorStack]) (butlast operatorStack)
      else (output, operatorStack))"
  by pat_completeness auto
termination
  by (relation "measure (\<lambda>(token, output, operatorStack). length operatorStack)") auto

declare popOperators.simps [simp del]

text \<open>The inner loop of the closing parenthesis pops down to the nearest \<open>(\<close>.\<close>

function popToParen :: "string list \<Rightarrow> string list \<Rightarrow> string list \<times> string list" where
  "popToParen output operatorStack =
     (if length operatorStack > 0 \<and> last operatorStack \<noteq> ''(''
      then popToParen (output @ [last operatorStack]) (butlast operatorStack)
      else (output, operatorStack))"
  by pat_completeness auto
termination
  by (relation "measure (\<lambda>(output, operatorStack). length operatorStack)") auto

declare popToParen.simps [simp del]

text \<open>
  The main loop.  A token that is no number, no operator and no parenthesis matches no
  case of the \<open>switch\<close>, which has no default: the token is dropped.
\<close>

fun shuntingYard_loop ::
  "(string \<Rightarrow> 'v option) \<Rightarrow> string list \<Rightarrow> string list \<Rightarrow> string list
     \<Rightarrow> error + (string list \<times> string list)" where
  "shuntingYard_loop parseFloat [] output operatorStack = Inr (output, operatorStack)"
| "shuntingYard_loop parseFloat (token # rest) output operatorStack =
     (if isNumber parseFloat token then
        shuntingYard_loop parseFloat rest (output @ [token]) operatorStack
      else if isOperator token then
        (case popOperators token output operatorStack of
           (output', operatorStack') \<Rightarrow>
             shuntingYard_loop parseFloat rest output' (operatorStack' @ [token]))
      else if token = ''('' then
        shuntingYard_loop parseFloat rest output (operatorStack @ [token])
      else if token = '')'' then
        (case popToParen output operatorStack of
           (output', operatorStack') \<Rightarrow>
             if length operatorStack' = 0 \<or> last operatorStack' \<noteq> ''('' then
               Inl MismatchedParentheses
             else shuntingYard_loop parseFloat rest output' (butlast operatorStack'))
      else shuntingYard_loop parseFloat rest output operatorStack)"

text \<open>The loop after the last token empties the operator stack.\<close>

function drainOperators :: "string list \<Rightarrow> string list \<Rightarrow> error + string list" where
  "drainOperators output operatorStack =
     (if length operatorStack > 0 then
        (if last operatorStack = ''('' then Inl MismatchedParentheses
         else drainOperators (output @ [last operatorStack]) (butlast operatorStack))
      else Inr output)"
  by pat_completeness auto
termination
  by (relation "measure (\<lambda>(output, operatorStack). length operatorStack)") auto

declare drainOperators.simps [simp del]

definition shuntingYard :: "(string \<Rightarrow> 'v option) \<Rightarrow> string list \<Rightarrow> error + string list" where
  "shuntingYard parseFloat tokens =
     (case shuntingYard_loop parseFloat tokens [] [] of
        Inl err \<Rightarrow> Inl err
      | Inr (output, operatorStack) \<Rightarrow> drainOperators output operatorStack)"

subsection \<open>Classes of bytes and tokens\<close>

text \<open>
  The bytes the tokenizer accepts, and the two kinds of token it emits: a symbol token
  is one operator or parenthesis, a numeric token is a non-empty run of digits and
  decimal points.  \<open>separated\<close> says that no two numeric tokens are neighbours.
\<close>

definition isDigit :: "char \<Rightarrow> bool" where
  "isDigit c \<longleftrightarrow> c \<in> set ''0123456789''"

definition numberByte :: "char \<Rightarrow> bool" where
  "numberByte c \<longleftrightarrow> isDigit c \<or> c = CHR ''.''"

definition symbolByte :: "char \<Rightarrow> bool" where
  "symbolByte c \<longleftrightarrow> c \<in> set ''+-*/()''"

definition allowedByte :: "char \<Rightarrow> bool" where
  "allowedByte c \<longleftrightarrow> numberByte c \<or> symbolByte c"

definition numericToken :: "string \<Rightarrow> bool" where
  "numericToken t \<longleftrightarrow> t \<noteq> [] \<and> list_all numberByte t"

definition symbolToken :: "string \<Rightarrow> bool" where
  "symbolToken t \<longleftrightarrow> isOperator t \<or> t = ''('' \<or> t = '')''"

fun separated :: "string list \<Rightarrow> bool" where
  "separated (a # b # ts) \<longleftrightarrow> \<not> (numericToken a \<and> numericToken b) \<and> separated (b # ts)"
| "separated ts \<longleftrightarrow> True"

section \<open>The scheduler store\<close>

subsection \<open>Data\<close>

datatype ExpressionStatus = Pending | InProcess | Completed | Failed

text \<open>
  The structs of the package.  A field of type \<open>*float64\<close> is an optional value; the
  type \<open>'v\<close> stands for \<open>float64\<close>, whose values the store only keeps and formats.
  The fields \<open>ID\<close>, \<open>Status\<close> and \<open>Result\<close> exist in both structs: those of an
  expression are written with the record name, \<open>ExpressionData.Status\<close>.
\<close>

record 'v ExpressionData =
  ID :: string
  Expression :: string
  Status :: ExpressionStatus
  Result :: "'v option"

record 'v Task =
  ID :: string
  ExpressionID :: string
  Arg1 :: string
  Arg2 :: string
  Operation :: Operation
  OperationTime :: int
  Result :: "'v option"
  Status :: string
  Dependencies :: "string list"

text \<open>
  The fields of \<open>OperationTimes\<close> carry the names of the four operations in the
  source; here they have the suffix \<open>_time\<close>.
\<close>

record OperationTimes =
  Addition_time :: int
  Subtraction_time :: int
  Multiplication_time :: int
  Division_time :: int

text \<open>
  The state of the service.  The maps hold pointers to structs that nothing else
  refers to between two operations, so a map from keys to records is the same state.
  \<open>completedTasks\<close> and \<open>readyTasks\<close> are maps to \<open>bool\<close> that only ever hold
  \<open>true\<close>: they are sets of keys.  The mutex is not part of the state: every operation
  below holds it from its first to its last step.  \<open>taskIDCounter\<close> is a Go \<open>int\<close>;
  every increment leaves a task in the map, so it stays far below \<open>2^63\<close> and is
  modelled without wrap-around.
\<close>

record 'v Service =
  expressions :: "string \<rightharpoonup> 'v ExpressionData"
  tasks :: "string \<rightharpoonup> 'v Task"
  taskQueue :: "string list"
  completedTasks :: "string set"
  readyTasks :: "string set"
  opTimes :: OperationTimes
  taskIDCounter :: int
  dependencyGraph :: "string \<rightharpoonup> string list"
  reverseDependencies :: "string \<rightharpoonup> string list"

definition NewService :: "OperationTimes \<Rightarrow> 'v Service" where
  "NewService opTimes' =
     \<lparr> expressions = Map.empty, tasks = Map.empty, taskQueue = [],
       completedTasks = {}, readyTasks = {}, opTimes = opTimes', taskIDCounter = 0,
       dependencyGraph = Map.empty, reverseDependencies = Map.empty \<rparr>"

text \<open>Reading a map of slices at a key it does not hold gives the empty slice.\<close>

definition lookupList :: "(string \<rightharpoonup> string list) \<Rightarrow> string \<Rightarrow> string list" where
  "lookupList m k = (case m k of None \<Rightarrow> [] | Some l \<Rightarrow> l)"

subsection \<open>Task identifiers\<close>

text \<open>\<open>fmt.Sprintf("task_%d", n)\<close>: the decimal digits of the counter after \<open>task_\<close>.\<close>

definition digitChar :: "nat \<Rightarrow> char" where
  "digitChar d = ''0123456789'' ! d"

function digitsOf :: "nat \<Rightarrow> string" where
  "digitsOf n =
     (if n < 10 then [digitChar n]
      else digitsOf (n div 10) @ [digitChar (n mod 10)])"
  by pat_completeness auto
termination
  by (relation "measure (\<lambda>n. n)") auto

declare digitsOf.simps [simp del]

definition formatInt :: "int \<Rightarrow> string" where
  "formatInt n = (if n < 0 then CHR ''-'' # digitsOf (nat (- n)) else digitsOf (nat n))"

definition taskName :: "int \<Rightarrow> string" where
  "taskName n = ''task_'' @ formatInt n"

subsection \<open>Building the task graph\<close>

text \<open>
  \<open>createTask\<close> returns the new identifier and the changed state.  The two lookups of
  \<open>s.tasks\<close> come before the new task enters the map.
\<close>

definition createTask ::
  "string \<Rightarrow> string \<Rightarrow> string \<Rightarrow> Operation \<Rightarrow> 'v Service \<Rightarrow> string \<times> 'v Service" where
  "createTask exprID arg1 arg2 operation s =
     (let counter = taskIDCounter s + 1;
          taskID = taskName counter;
          opTime =
            (if operation = Addition then Addition_time (opTimes s)
             else if operation = Subtraction then Subtraction_time (opTimes s)
             else if operation = Multiplication then Multiplication_time (opTimes s)
             else if operation = Division then Division_time (opTimes s)
             else 0);
          deps1 = (if arg1 \<in> dom (tasks s) then [arg1] else []);
          rev1 =
            (if arg1 \<in> dom (tasks s)
             then (reverseDependencies s)(arg1 \<mapsto> lookupList (reverseDependencies s) arg1 @ [taskID])
             else reverseDependencies s);
          deps2 = (if arg2 \<in> dom (tasks s) then deps1 @ [arg2] else deps1);
          rev2 =
            (if arg2 \<in> dom (tasks s)
             then rev1(arg2 \<mapsto> lookupList rev1 arg2 @ [taskID])
             else rev1);
          task = \<lparr> ID = taskID, ExpressionID = exprID, Arg1 = arg1, Arg2 = arg2,
                   Operation = operation, OperationTime = opTime, Result = None,
                   Status = ''pending'', Dependencies = deps2 \<rparr>
      in (taskID,
          s\<lparr> taskIDCounter := counter,
             reverseDependencies := rev2,
             tasks := (tasks s)(taskID \<mapsto> task),
             dependencyGraph := (dependencyGraph s)(taskID \<mapsto> deps2) \<rparr>))"

text \<open>
  The first loop of \<open>createTasksFromPostfix\<close>, over the postfix tokens.  The stack is
  a slice whose top is its last element.  On an error the loop returns at once, with
  the state as the tasks created so far have left it.
\<close>

fun createTasks_loop ::
  "string \<Rightarrow> string list \<Rightarrow> string list \<Rightarrow> 'v Service \<Rightarrow> (error + string list) \<times> 'v Service" where
  "createTasks_loop exprID [] stack s = (Inr stack, s)"
| "createTasks_loop exprID (token # rest) stack s =
     (if isOperator token then
        (if length stack < 2 then (Inl (NotEnoughOperands token), s)
         else
           (let arg2 = stack ! (length stack - 1);
                arg1 = stack ! (length stack - 2);
                stack' = take (length stack - 2) stack
            in case createTask exprID arg1 arg2 token s of
                 (taskID, s') \<Rightarrow> createTasks_loop exprID rest (stack' @ [taskID]) s'))
      else createTasks_loop exprID rest (stack @ [token]) s)"

text \<open>
  The second loop ranges over the map \<open>s.tasks\<close>.  Go leaves the order of a \<open>range\<close>
  over a map open: the order is the argument \<open>keys\<close>, a list of the keys of the map.
  The loop body only reads \<open>s.tasks\<close>.
\<close>

fun markReady :: "string \<Rightarrow> string list \<Rightarrow> 'v Service \<Rightarrow> 'v Service" where
  "markReady exprID [] s = s"
| "markReady exprID (taskID # keys) s =
     (case tasks s taskID of
        None \<Rightarrow> markReady exprID keys s
      | Some task \<Rightarrow>
          if ExpressionID task = exprID \<and> Arg1 task \<notin> dom (tasks s) \<and> Arg2 task \<notin> dom (tasks s)
          then markReady exprID keys (s\<lparr> readyTasks := insert taskID (readyTasks s) \<rparr>)
          else markReady exprID keys s)"

text \<open>A Go \<open>error\<close> result is \<open>None\<close> for \<open>nil\<close>.\<close>

definition createTasksFromPostfix ::
  "string \<Rightarrow> string list \<Rightarrow> string list \<Rightarrow> 'v Service \<Rightarrow> error option \<times> 'v Service" where
  "createTasksFromPostfix exprID postfix keys s =
     (case createTasks_loop exprID postfix [] s of
        (Inl err, s') \<Rightarrow> (Some err, s')
      | (Inr stack, s') \<Rightarrow>
          if length stack \<noteq> 1 then (Some TooManyValues, s')
          else (None, markReady exprID keys s'))"

definition parseExpression ::
  "(string \<Rightarrow> 'w option) \<Rightarrow> string \<Rightarrow> string \<Rightarrow> string list \<Rightarrow> 'v Service
     \<Rightarrow> error option \<times> 'v Service" where
  "parseExpression parseFloat exprID expression keys s =
     (case tokenize expression of
        Inl err \<Rightarrow> (Some err, s)
      | Inr tokens \<Rightarrow>
          (case shuntingYard parseFloat tokens of
             Inl err \<Rightarrow> (Some err, s)
           | Inr output \<Rightarrow> createTasksFromPostfix exprID output keys s))"

subsection \<open>The operations of the store\<close>

text \<open>
  \<open>SubmitExpression\<close>.  The identifier \<open>uuid.New().String()\<close> comes from outside and
  is the argument \<open>id'\<close> (the name \<open>id\<close> is the identity function of HOL).  The assignments to \<open>expr.Status\<close> write through the pointer
  that the map holds at \<open>id'\<close>.
\<close>

definition SubmitExpression ::
  "(string \<Rightarrow> 'w option) \<Rightarrow> string \<Rightarrow> string \<Rightarrow> string list \<Rightarrow> 'v Service
     \<Rightarrow> (error + string) \<times> 'v Service" where
  "SubmitExpression parseFloat id' expression keys s =
     (let expression' = filter (\<lambda>c. c \<noteq> CHR '' '') expression;
          expr = \<lparr> ExpressionData.ID = id', Expression = expression',
                   ExpressionData.Status = Pending, ExpressionData.Result = None \<rparr>;
          s1 = s\<lparr> expressions := (expressions s)(id' \<mapsto> expr) \<rparr>
      in case parseExpression parseFloat id' expression' keys s1 of
           (Some err, s2) \<Rightarrow>
             (Inl err,
              s2\<lparr> expressions := (expressions s2)(id' \<mapsto> expr\<lparr> ExpressionData.Status := Failed \<rparr>) \<rparr>)
         | (None, s2) \<Rightarrow>
             (Inr id',
              s2\<lparr> expressions := (expressions s2)(id' \<mapsto> expr\<lparr> ExpressionData.Status := InProcess \<rparr>) \<rparr>))"

definition GetExpression :: "string \<Rightarrow> 'v Service \<Rightarrow> 'v ExpressionData option" where
  "GetExpression id' s = expressions s id'"

text \<open>
  \<open>GetTask\<close> takes the first key that the \<open>range\<close> over \<open>s.readyTasks\<close> yields; \<open>keys\<close>
  is the order of that range.  The operations that dereference a pointer read from a map
  return \<open>None\<close> where the pointer is \<open>nil\<close> and the program panics.
\<close>

definition GetTask :: "string list \<Rightarrow> 'v Service \<Rightarrow> ('v Task option \<times> 'v Service) option" where
  "GetTask keys s =
     (case keys of
        [] \<Rightarrow> Some (None, s)
      | taskID # _ \<Rightarrow>
          (case tasks s taskID of
             None \<Rightarrow> None
           | Some task \<Rightarrow>
               Some (Some (task\<lparr> Status := ''processing'' \<rparr>),
                     s\<lparr> tasks := (tasks s)(taskID \<mapsto> task\<lparr> Status := ''processing'' \<rparr>),
                        readyTasks := readyTasks s - {taskID} \<rparr>)))"

text \<open>
  The loop of \<open>updateExpressionStatus\<close> over \<open>s.tasks\<close>, in the order \<open>keys\<close>, with its
  two variables \<open>allCompleted\<close> and \<open>finalResult\<close>; the \<open>break\<close> ends it.
\<close>

fun expressionStatus_loop ::
  "string \<Rightarrow> string list \<Rightarrow> 'v Service \<Rightarrow> bool \<times> 'v option \<Rightarrow> bool \<times> 'v option" where
  "expressionStatus_loop exprID [] s (allCompleted, finalResult) = (allCompleted, finalResult)"
| "expressionStatus_loop exprID (taskID # keys) s (allCompleted, finalResult) =
     (case tasks s taskID of
        None \<Rightarrow> expressionStatus_loop exprID keys s (allCompleted, finalResult)
      | Some task \<Rightarrow>
          if ExpressionID task = exprID then
            (if Result task = None then (False, finalResult)
             else if length (lookupList (reverseDependencies s) taskID) = 0
               then expressionStatus_loop exprID keys s (allCompleted, Result task)
               else expressionStatus_loop exprID keys s (allCompleted, finalResult))
          else expressionStatus_loop exprID keys s (allCompleted, finalResult))"

definition updateExpressionStatus :: "string \<Rightarrow> string list \<Rightarrow> 'v Service \<Rightarrow> 'v Service option" where
  "updateExpressionStatus exprID keys s =
     (case expressionStatus_loop exprID keys s (True, None) of
        (allCompleted, finalResult) \<Rightarrow>
          if allCompleted \<and> finalResult \<noteq> None then
            (case expressions s exprID of
               None \<Rightarrow> None
             | Some expr \<Rightarrow>
                 Some (s\<lparr> expressions := (expressions s)(exprID \<mapsto>
                   expr\<lparr> ExpressionData.Status := Completed, ExpressionData.Result := finalResult \<rparr>) \<rparr>))
          else Some s)"

text \<open>
  The loop of \<open>updateDependencies\<close> over the slice \<open>s.reverseDependencies[taskID]\<close>.
  \<open>formatFloat\<close> is the library's \<open>fmt.Sprintf("%f", result)\<close>.
\<close>

fun updateDependencies_loop ::
  "('v \<Rightarrow> string) \<Rightarrow> string \<Rightarrow> 'v \<Rightarrow> string list \<Rightarrow> 'v Service \<Rightarrow> 'v Service option" where
  "updateDependencies_loop formatFloat taskID result [] s = Some s"
| "updateDependencies_loop formatFloat taskID result (depID # rest) s =
     (case tasks s depID of
        None \<Rightarrow> None
      | Some depTask \<Rightarrow>
          (let depTask1 = (if Arg1 depTask = taskID then depTask\<lparr> Arg1 := formatFloat result \<rparr> else depTask);
               depTask2 = (if Arg2 depTask1 = taskID then depTask1\<lparr> Arg2 := formatFloat result \<rparr> else depTask1);
               s1 = s\<lparr> tasks := (tasks s)(depID \<mapsto> depTask2) \<rparr>;
               allDepsCompleted = list_all (\<lambda>dID. dID \<in> completedTasks s1) (Dependencies depTask2)
           in updateDependencies_loop formatFloat taskID result rest
                (if allDepsCompleted then s1\<lparr> readyTasks := insert depID (readyTasks s1) \<rparr> else s1)))"

definition updateDependencies :: "('v \<Rightarrow> string) \<Rightarrow> string \<Rightarrow> 'v \<Rightarrow> 'v Service \<Rightarrow> 'v Service option" where
  "updateDependencies formatFloat taskID result s =
     updateDependencies_loop formatFloat taskID result (lookupList (reverseDependencies s) taskID) s"

definition SetTaskResult ::
  "('v \<Rightarrow> string) \<Rightarrow> string \<Rightarrow> 'v \<Rightarrow> string list \<Rightarrow> 'v Service \<Rightarrow> (error option \<times> 'v Service) option" where
  "SetTaskResult formatFloat id' result keys s =
     (case tasks s id' of
        None \<Rightarrow> Some (Some (TaskNotFound id'), s)
      | Some task \<Rightarrow>
          (let s1 = s\<lparr> tasks := (tasks s)(id' \<mapsto> task\<lparr> Result := Some result \<rparr>),
                       completedTasks := insert id' (completedTasks s) \<rparr>
           in case updateExpressionStatus (ExpressionID task) keys s1 of
                None \<Rightarrow> None
              | Some s2 \<Rightarrow>
                  (case updateDependencies formatFloat id' result s2 of
                     None \<Rightarrow> None
                   | Some s3 \<Rightarrow> Some (None, s3))))"


subsection \<open>The request handler in front of the store\<close>

text \<open>
  \<open>CalculateExpression\<close> binds the request body with \<open>c.ShouldBindJSON\<close> before it
  calls the store.  The field \<open>Expression\<close> of \<open>ExpressionRequest\<close> carries the tag
  \<open>binding:"required"\<close>, which makes the binding of the web framework fail when the
  field is missing or holds the empty string.  The body is modelled as the optional
  text of that field, the framework's error as \<open>BindingFailed\<close>, and the response as
  the status code with the error or the new identifier.
\<close>

datatype bindingError = BindingFailed

definition ShouldBindJSON :: "string option \<Rightarrow> bindingError + string" where
  "ShouldBindJSON body =
     (case body of
        None \<Rightarrow> Inl BindingFailed
      | Some expression \<Rightarrow> if expression = [] then Inl BindingFailed else Inr expression)"

datatype calculateResponse =
    StatusCreated string
  | StatusUnprocessableEntity "bindingError + error"

definition CalculateExpression ::
  "(string \<Rightarrow> 'w option) \<Rightarrow> string option \<Rightarrow> string \<Rightarrow> string list \<Rightarrow> 'v Service
     \<Rightarrow> calculateResponse \<times> 'v Service" where
  "CalculateExpression parseFloat body id' keys s =
     (case ShouldBindJSON body of
        Inl err \<Rightarrow> (StatusUnprocessableEntity (Inl err), s)
      | Inr expression \<Rightarrow>
          (case SubmitExpression parseFloat id' expression keys s of
             (Inl err, s') \<Rightarrow> (StatusUnprocessableEntity (Inr err), s')
           | (Inr newID, s') \<Rightarrow> (StatusCreated newID, s')))"

subsection \<open>Sequences of operations\<close>

text \<open>
  The three operations that change the store, each with what the environment
  contributes to it: the fresh identifier of a submission, and the order in which the
  \<open>range\<close> statement of the operation visits the keys of its map.
\<close>

datatype 'v operation =
    Submit string string "string list"
  | Pull "string list"
  | Record string 'v "string list"

datatype 'v response =
    Submitted "error + string"
  | Pulled "'v Task option"
  | Recorded "error option"

fun step ::
  "(string \<Rightarrow> 'w option) \<Rightarrow> ('v \<Rightarrow> string) \<Rightarrow> 'v operation \<Rightarrow> 'v Service
     \<Rightarrow> ('v response \<times> 'v Service) option" where
  "step parseFloat formatFloat (Submit id' expression keys) s =
     (case SubmitExpression parseFloat id' expression keys s of
        (r, s') \<Rightarrow> Some (Submitted r, s'))"
| "step parseFloat formatFloat (Pull keys) s =
     (case GetTask keys s of
        None \<Rightarrow> None
      | Some (r, s') \<Rightarrow> Some (Pulled r, s'))"
| "step parseFloat formatFloat (Record id' result keys) s =
     (case SetTaskResult formatFloat id' result keys s of
        None \<Rightarrow> None
      | Some (r, s') \<Rightarrow> Some (Recorded r, s'))"

text \<open>
  What the environment guarantees: a new identifier is not the identifier of an
  earlier expression, and \<open>keys\<close> lists every key of the map that the operation ranges
  over exactly once.  A submission ranges over \<open>s.tasks\<close> after it has created its
  tasks; the loop adds no key, so these are the keys of the task map it leaves.
\<close>

definition enumerates :: "string list \<Rightarrow> string set \<Rightarrow> bool" where
  "enumerates keys K \<longleftrightarrow> distinct keys \<and> set keys = K"

fun admissible :: "(string \<Rightarrow> 'w option) \<Rightarrow> 'v operation \<Rightarrow> 'v Service \<Rightarrow> bool" where
  "admissible parseFloat (Submit id' expression keys) s \<longleftrightarrow>
     id' \<notin> dom (expressions s)
     \<and> enumerates keys (dom (tasks (snd (SubmitExpression parseFloat id' expression keys s))))"
| "admissible parseFloat (Pull keys) s \<longleftrightarrow> enumerates keys (readyTasks s)"
| "admissible parseFloat (Record id' result keys) s \<longleftrightarrow> enumerates keys (dom (tasks s))"

text \<open>
  A run applies a list of operations in order and collects the responses; it is
  \<open>None\<close> when an operation panics.  \<open>admissibleRun\<close> asks that every operation is
  admissible in the state it meets.
\<close>

fun run ::
  "(string \<Rightarrow> 'w option) \<Rightarrow> ('v \<Rightarrow> string) \<Rightarrow> 'v operation list \<Rightarrow> 'v Service
     \<Rightarrow> ('v response list \<times> 'v Service) option" where
  "run parseFloat formatFloat [] s = Some ([], s)"
| "run parseFloat formatFloat (operation # rest) s =
     (case step parseFloat formatFloat operation s of
        None \<Rightarrow> None
      | Some (r, s') \<Rightarrow>
          (case run parseFloat formatFloat rest s' of
             None \<Rightarrow> None
           | Some (rs, s'') \<Rightarrow> Some (r # rs, s'')))"

fun admissibleRun ::
  "(string \<Rightarrow> 'w option) \<Rightarrow> ('v \<Rightarrow> string) \<Rightarrow> 'v operation list \<Rightarrow> 'v Service \<Rightarrow> bool" where
  "admissibleRun parseFloat formatFloat [] s \<longleftrightarrow> True"
| "admissibleRun parseFloat formatFloat (operation # rest) s \<longleftrightarrow>
     admissible parseFloat operation s
     \<and> (case step parseFloat formatFloat operation s of
          None \<Rightarrow> True
        | Some (r, s') \<Rightarrow> admissibleRun parseFloat formatFloat rest s')"

text \<open>The states that the service reaches from its start by admissible operations.\<close>

definition reaches ::
  "(string \<Rightarrow> 'w option) \<Rightarrow> ('v \<Rightarrow> string) \<Rightarrow> OperationTimes \<Rightarrow> 'v operation list
     \<Rightarrow> 'v response list \<Rightarrow> 'v Service \<Rightarrow> bool" where
  "reaches parseFloat formatFloat opTimes' operations responses s \<longleftrightarrow>
     admissibleRun parseFloat formatFloat operations (NewService opTimes')
     \<and> run parseFloat formatFloat operations (NewService opTimes') = Some (responses, s)"

subsection \<open>The arithmetic of the workers\<close>

text \<open>
  \<open>ProcessOperation\<close> computes one operation on two values of type \<open>float64\<close>.  The
  model is written over any type with the four operations and a zero, which a model
  of the floating-point numbers instantiates; the simulated delay \<open>time.Sleep\<close> has
  no result and is left out.
\<close>

definition ProcessOperation ::
  "Operation \<Rightarrow> 'v \<Rightarrow> 'v \<Rightarrow> int \<Rightarrow> error + ('v::{plus,minus,times,inverse,zero})" where
  "ProcessOperation operation arg1 arg2 delay =
     (if operation = Addition then Inr (arg1 + arg2)
      else if operation = Subtraction then Inr (arg1 - arg2)
      else if operation = Multiplication then Inr (arg1 * arg2)
      else if operation = Division then
        (if arg2 = 0 then Inl DivisionByZero else Inr (arg1 / arg2))
      else Inl (UnknownOperation operation))"

section \<open>The reference evaluator\<close>

text \<open>
  The infix expressions of the compiler: numbers, the four operators, parentheses.
  \<open>tokensOf\<close> writes an expression as its token stream; a parenthesis is a node of its
  own, so every token stream with parentheses, needed or not, is the stream of a tree.
\<close>

datatype infixExpr =
    Number string
  | Binary infixExpr Operation infixExpr
  | Parens infixExpr

fun tokensOf :: "infixExpr \<Rightarrow> string list" where
  "tokensOf (Number t) = [t]"
| "tokensOf (Binary l operator r) = tokensOf l @ [operator] @ tokensOf r"
| "tokensOf (Parens e) = [''(''] @ tokensOf e @ ['')'']"

text \<open>
  The binding strength of an expression: that of its operator, and 3, above both
  operator precedences, for a number and for a parenthesised expression.
\<close>

fun level :: "infixExpr \<Rightarrow> int" where
  "level (Number t) = 3"
| "level (Binary l operator r) = getPrecedence operator"
| "level (Parens e) = 3"

text \<open>
  A tree is the reading of its token stream under the stated precedences and left
  associativity when the left operand of every operator binds at least as strongly as
  the operator and the right operand binds strictly more strongly.
\<close>

fun validInfix :: "(string \<Rightarrow> 'v option) \<Rightarrow> infixExpr \<Rightarrow> bool" where
  "validInfix parseFloat (Number t) \<longleftrightarrow> isNumber parseFloat t"
| "validInfix parseFloat (Binary l operator r) \<longleftrightarrow>
     isOperator operator \<and> validInfix parseFloat l \<and> validInfix parseFloat r
     \<and> getPrecedence operator \<le> level l \<and> getPrecedence operator < level r"
| "validInfix parseFloat (Parens e) \<longleftrightarrow> validInfix parseFloat e"

text \<open>
  Direct evaluation of an infix expression.  \<open>compute\<close> is the arithmetic of one
  operation, which may fail (division by zero); any function serves, so the values
  may be floating-point numbers.
\<close>

fun evalInfix ::
  "(string \<Rightarrow> 'v option) \<Rightarrow> (Operation \<Rightarrow> 'v \<Rightarrow> 'v \<Rightarrow> 'v option) \<Rightarrow> infixExpr \<Rightarrow> 'v option" where
  "evalInfix parseFloat compute (Number t) = parseFloat t"
| "evalInfix parseFloat compute (Binary l operator r) =
     (case evalInfix parseFloat compute l of
        None \<Rightarrow> None
      | Some a \<Rightarrow>
          (case evalInfix parseFloat compute r of
             None \<Rightarrow> None
           | Some b \<Rightarrow> compute operator a b))"
| "evalInfix parseFloat compute (Parens e) = evalInfix parseFloat compute e"

text \<open>The postfix order of a tree: both operands, then the operator.\<close>

fun postfixOf :: "infixExpr \<Rightarrow> string list" where
  "postfixOf (Number t) = [t]"
| "postfixOf (Binary l operator r) = postfixOf l @ postfixOf r @ [operator]"
| "postfixOf (Parens e) = postfixOf e"

text \<open>
  Left-to-right stack evaluation of a postfix sequence.  The head of the list is the
  top of the value stack: an operator takes the top as its right operand and the value
  below as its left operand.  The sequence has a value when exactly one value is left.
\<close>

fun evalPostfix_loop ::
  "(string \<Rightarrow> 'v option) \<Rightarrow> (Operation \<Rightarrow> 'v \<Rightarrow> 'v \<Rightarrow> 'v option) \<Rightarrow> string list
     \<Rightarrow> 'v list \<Rightarrow> 'v list option" where
  "evalPostfix_loop parseFloat compute [] stack = Some stack"
| "evalPostfix_loop parseFloat compute (token # rest) stack =
     (if isOperator token then
        (case stack of
           b # a # stack' \<Rightarrow>
             (case compute token a b of
                None \<Rightarrow> None
              | Some v \<Rightarrow> evalPostfix_loop parseFloat compute rest (v # stack'))
         | _ \<Rightarrow> None)
      else
        (case parseFloat token of
           None \<Rightarrow> None
         | Some v \<Rightarrow> evalPostfix_loop parseFloat compute rest (v # stack)))"

definition evalPostfix ::
  "(string \<Rightarrow> 'v option) \<Rightarrow> (Operation \<Rightarrow> 'v \<Rightarrow> 'v \<Rightarrow> 'v option) \<Rightarrow> string list \<Rightarrow> 'v option" where
  "evalPostfix parseFloat compute postfix =
     (case evalPostfix_loop parseFloat compute postfix [] of
        Some [v] \<Rightarrow> Some v
      | _ \<Rightarrow> None)"

text \<open>
  What the library guarantees of \<open>strconv.ParseFloat\<close> and the compiler relies on: an
  operator or a parenthesis is not a number.
\<close>

definition symbolsRejected :: "(string \<Rightarrow> 'v option) \<Rightarrow> bool" where
  "symbolsRejected parseFloat \<longleftrightarrow>
     list_all (\<lambda>t. parseFloat t = None) [''+'', ''-'', ''*'', ''/'', ''('', '')'']"

section \<open>Instances of the library functions for concrete evaluation\<close>

text \<open>
  \<open>parseDecimal\<close> reads an unsigned decimal numeral, digits with at most one decimal
  point and at least one digit, as \<open>strconv.ParseFloat\<close> does, and rejects every
  other string.  \<open>formatWhole\<close> is the text that the verb \<open>%f\<close> gives for a whole
  number that is not negative.  \<open>computeOperation\<close> is \<open>ProcessOperation\<close> without
  its error text.
\<close>

fun digitsValue :: "string \<Rightarrow> nat \<Rightarrow> nat" where
  "digitsValue [] acc = acc"
| "digitsValue (c # cs) acc = digitsValue cs (10 * acc + (of_char c - 48))"

definition parseDecimal :: "string \<Rightarrow> real option" where
  "parseDecimal s =
     (let whole = takeWhile isDigit s; rest = dropWhile isDigit s
      in if rest = [] then (if whole = [] then None else Some (of_nat (digitsValue whole 0)))
         else if hd rest = CHR ''.'' \<and> list_all isDigit (tl rest) \<and> (whole \<noteq> [] \<or> tl rest \<noteq> [])
           then Some (of_nat (digitsValue whole 0)
                      + of_nat (digitsValue (tl rest) 0) / 10 ^ length (tl rest))
         else None)"

definition formatWhole :: "nat \<Rightarrow> string" where
  "formatWhole n = digitsOf n @ ''.000000''"

definition computeOperation ::
  "Operation \<Rightarrow> 'v \<Rightarrow> 'v \<Rightarrow> ('v::{plus,minus,times,inverse,zero}) option" where
  "computeOperation operation arg1 arg2 =
     (case ProcessOperation operation arg1 arg2 0 of Inl err \<Rightarrow> None | Inr v \<Rightarrow> Some v)"

definition unitTimes :: OperationTimes where
  "unitTimes = \<lparr> Addition_time = 1, Subtraction_time = 1, Multiplication_time = 1, Division_time = 1 \<rparr>"

section \<open>The tasks of the expression 2+2*2\<close>

text \<open>
  The two tasks that the expression \<open>2+2*2\<close> compiles to, as \<open>createTask\<close> builds
  them: the multiplication first, then the addition, whose second operand is given.
\<close>

definition multiplicationTask :: "string \<Rightarrow> OperationTimes \<Rightarrow> 'v Task" where
  "multiplicationTask exprID times' =
     \<lparr> ID = ''task_1'', ExpressionID = exprID, Arg1 = ''2'', Arg2 = ''2'',
       Operation = Multiplication, OperationTime = Multiplication_time times', Result = None,
       Status = ''pending'', Dependencies = [] \<rparr>"

definition additionTask :: "string \<Rightarrow> OperationTimes \<Rightarrow> string \<Rightarrow> 'v Task" where
  "additionTask exprID times' arg2 =
     \<lparr> ID = ''task_2'', ExpressionID = exprID, Arg1 = ''2'', Arg2 = arg2,
       Operation = Addition, OperationTime = Addition_time times', Result = None,
       Status = ''pending'', Dependencies = [''task_1''] \<rparr>"

section \<open>Invariants of the store\<close>

text \<open>
  The structure that every operation keeps.  Every key of the task map is the name
  of a counter value that has been used; every task belongs to a recorded expression;
  every dependency of a task is a task, and is completed or still named by an operand;
  every entry of the reverse-dependency index is a task that has the indexed task
  among its dependencies; the ready set and the completed set hold keys of tasks.
\<close>


definition keysNamed :: "'v Service \<Rightarrow> bool" where
  "keysNamed s \<longleftrightarrow>
     0 \<le> taskIDCounter s \<and> (\<forall>k \<in> dom (tasks s). \<exists>n. 0 < n \<and> n \<le> taskIDCounter s \<and> k = taskName n)"

definition expressionsKnown :: "'v Service \<Rightarrow> bool" where
  "expressionsKnown s \<longleftrightarrow>
     (\<forall>k t. tasks s k = Some t \<longrightarrow> ExpressionID t \<in> dom (expressions s))"

definition dependenciesKnown :: "'v Service \<Rightarrow> bool" where
  "dependenciesKnown s \<longleftrightarrow>
     (\<forall>k t. tasks s k = Some t \<longrightarrow>
        (\<forall>d \<in> set (Dependencies t).
           d \<in> dom (tasks s) \<and> (d \<in> completedTasks s \<or> d = Arg1 t \<or> d = Arg2 t)))"

definition dependentsKnown :: "'v Service \<Rightarrow> bool" where
  "dependentsKnown s \<longleftrightarrow>
     (\<forall>d. \<forall>k \<in> set (lookupList (reverseDependencies s) d).
        \<exists>t. tasks s k = Some t \<and> d \<in> set (Dependencies t))"

definition wellFormed :: "'v Service \<Rightarrow> bool" where
  "wellFormed s \<longleftrightarrow>
     keysNamed s \<and> expressionsKnown s \<and> dependenciesKnown s \<and> dependentsKnown s
     \<and> readyTasks s \<subseteq> dom (tasks s) \<and> completedTasks s \<subseteq> dom (tasks s)"

text \<open>What a build leaves of the state it started from.\<close>

definition extends :: "string \<Rightarrow> 'v Service \<Rightarrow> 'v Service \<Rightarrow> bool" where
  "extends e s s' \<longleftrightarrow>
     expressions s' = expressions s \<and> completedTasks s' = completedTasks s
     \<and> readyTasks s' = readyTasks s
     \<and> (\<forall>k u. tasks s k = Some u \<longrightarrow> tasks s' k = Some u)
     \<and> (\<forall>k u. tasks s' k = Some u \<longrightarrow> tasks s k = Some u \<or> (k \<notin> dom (tasks s) \<and> ExpressionID u = e))"

definition readyCandidates :: "string \<Rightarrow> string list \<Rightarrow> 'v Service \<Rightarrow> string set" where
  "readyCandidates e keys s =
     {k \<in> set keys. \<exists>t. tasks s k = Some t \<and> ExpressionID t = e
        \<and> Arg1 t \<notin> dom (tasks s) \<and> Arg2 t \<notin> dom (tasks s)}"

text \<open>
  The effect of the loop of \<open>updateDependencies\<close> on the dependents \<open>D\<close> of a task:
  each operand that names the task becomes the text of its result, and the dependents
  whose dependencies are all completed enter the ready set.
\<close>

definition substituteResult :: "string \<Rightarrow> string \<Rightarrow> 'v Task \<Rightarrow> 'v Task" where
  "substituteResult taskID text t =
     t\<lparr> Arg1 := (if Arg1 t = taskID then text else Arg1 t),
        Arg2 := (if Arg2 t = taskID then text else Arg2 t) \<rparr>"

definition substituted ::
  "string \<Rightarrow> string \<Rightarrow> string set \<Rightarrow> (string \<rightharpoonup> 'v Task) \<Rightarrow> (string \<rightharpoonup> 'v Task)" where
  "substituted taskID text D m =
     (\<lambda>k. if k \<in> D then map_option (substituteResult taskID text) (m k) else m k)"

definition nowReady :: "string set \<Rightarrow> 'v Service \<Rightarrow> string set" where
  "nowReady D s =
     {k \<in> D. \<exists>t. tasks s k = Some t \<and> set (Dependencies t) \<subseteq> completedTasks s}"

text \<open>
  The entry that \<open>SubmitExpression\<close> writes for a new expression, and the state with
  that entry.
\<close>

definition submitted :: "string \<Rightarrow> string \<Rightarrow> ExpressionStatus \<Rightarrow> 'v ExpressionData" where
  "submitted id' text status =
     \<lparr> ExpressionData.ID = id', Expression = text, ExpressionData.Status = status,
       ExpressionData.Result = None \<rparr>"

definition withExpression :: "string \<Rightarrow> string \<Rightarrow> ExpressionStatus \<Rightarrow> 'v Service \<Rightarrow> 'v Service" where
  "withExpression id' text status s =
     s\<lparr> expressions := (expressions s)(id' \<mapsto> submitted id' text status) \<rparr>"

definition stripSpaces :: "string \<Rightarrow> string" where
  "stripSpaces expression = filter (\<lambda>c. c \<noteq> CHR '' '') expression"

text \<open>The state after the first two assignments of \<open>SetTaskResult\<close>.\<close>

definition withResult :: "string \<Rightarrow> 'v \<Rightarrow> 'v Task \<Rightarrow> 'v Service \<Rightarrow> 'v Service" where
  "withResult id' result task s =
     s\<lparr> tasks := (tasks s)(id' \<mapsto> task\<lparr> Result := Some result \<rparr>),
        completedTasks := insert id' (completedTasks s) \<rparr>"

text \<open>
  A literal operand of a build: a token that parses as a number and is not the name
  of a task.  \<open>built\<close> relates the state \<open>s0\<close> in which a build starts to a state
  \<open>s\<close> during the build: the index entries of the tasks of \<open>s0\<close> are untouched, and
  every new task carries its key, has no result, and has operands that are literals
  or new tasks which it depends on and whose index entry names it.
\<close>

definition literal :: "(string \<Rightarrow> 'w option) \<Rightarrow> string \<Rightarrow> bool" where
  "literal parseFloat x \<longleftrightarrow> isNumber parseFloat x \<and> x \<notin> range taskName"

definition built :: "(string \<Rightarrow> 'w option) \<Rightarrow> 'v Service \<Rightarrow> 'v Service \<Rightarrow> bool" where
  "built parseFloat s0 s \<longleftrightarrow>
     (\<forall>k \<in> dom (tasks s0).
        lookupList (reverseDependencies s) k = lookupList (reverseDependencies s0) k)
     \<and> (\<forall>k u. tasks s k = Some u \<and> k \<notin> dom (tasks s0) \<longrightarrow>
           ID u = k \<and> Result u = None
           \<and> (\<forall>a \<in> {Arg1 u, Arg2 u}. literal parseFloat a
                 \<or> (a \<in> dom (tasks s) - dom (tasks s0) \<and> a \<in> set (Dependencies u)
                     \<and> k \<in> set (lookupList (reverseDependencies s) a))))"

text \<open>
  The output of the conversion holds numbers and operators only, and the operator
  stack holds operators and opening parentheses only.
\<close>

definition outputToken :: "(string \<Rightarrow> 'w option) \<Rightarrow> string \<Rightarrow> bool" where
  "outputToken parseFloat x \<longleftrightarrow> isNumber parseFloat x \<or> isOperator x"


section \<open>Properties of runs\<close>

text \<open>
  The order that claim C6 states, on the operations of a run paired with their
  responses: every successful \<open>Record\<close> names a task that an earlier \<open>Pull\<close>
  returned.
\<close>

fun recordsAfterPull :: "string set \<Rightarrow> ('v operation \<times> 'v response) list \<Rightarrow> bool" where
  "recordsAfterPull pulled [] \<longleftrightarrow> True"
| "recordsAfterPull pulled ((Pull keys, Pulled (Some t)) # rest) \<longleftrightarrow>
     recordsAfterPull (insert (ID t) pulled) rest"
| "recordsAfterPull pulled ((Record id' result keys, Recorded None) # rest) \<longleftrightarrow>
     id' \<in> pulled \<and> recordsAfterPull pulled rest"
| "recordsAfterPull pulled (_ # rest) \<longleftrightarrow> recordsAfterPull pulled rest"




text \<open>
  What claim C10 needs of the library: the text that \<open>%f\<close> gives for a result parses
  as a number, and the name of a task does not.
\<close>

definition resultsParse :: "(string \<Rightarrow> 'w option) \<Rightarrow> ('v \<Rightarrow> string) \<Rightarrow> bool" where
  "resultsParse parseFloat formatFloat \<longleftrightarrow> (\<forall>v. isNumber parseFloat (formatFloat v))"

definition namesRejected :: "(string \<Rightarrow> 'w option) \<Rightarrow> bool" where
  "namesRejected parseFloat \<longleftrightarrow> (\<forall>n. \<not> isNumber parseFloat (taskName n))"

text \<open>
  The invariant of the operands: an operand parses as a number, or it names a
  dependency of the task that is not completed and whose index entry holds the task;
  and the operands of a ready task parse as numbers.
\<close>

definition operandsResolved :: "(string \<Rightarrow> 'w option) \<Rightarrow> 'v Service \<Rightarrow> bool" where
  "operandsResolved parseFloat s \<longleftrightarrow>
     (\<forall>k u. tasks s k = Some u \<longrightarrow>
        (\<forall>a \<in> {Arg1 u, Arg2 u}. isNumber parseFloat a
           \<or> (a \<in> set (Dependencies u) \<and> a \<notin> completedTasks s
               \<and> k \<in> set (lookupList (reverseDependencies s) a))))
     \<and> (\<forall>k \<in> readyTasks s. \<forall>u. tasks s k = Some u \<longrightarrow>
           isNumber parseFloat (Arg1 u) \<and> isNumber parseFloat (Arg2 u))"

text \<open>
  The number of tasks that the first loop of \<open>createTasksFromPostfix\<close> creates for a
  sequence of tokens, from a stack of the given height: one for each operator that finds
  two values on the stack, up to the first operator that does not.
\<close>

fun tasksCreated :: "string list \<Rightarrow> nat \<Rightarrow> nat" where
  "tasksCreated [] height = 0"
| "tasksCreated (token # rest) height =
     (if isOperator token then
        (if height < 2 then 0 else 1 + tasksCreated rest (height - 1))
      else tasksCreated rest (height + 1))"

section \<open>Expressions and their tasks\<close>

text \<open>
  The tasks of an expression, its root tasks (the test of \<open>updateExpressionStatus\<close>:
  the index entry of the task is empty), and the result that a task holds.
\<close>

definition tasksOf :: "'v Service \<Rightarrow> string \<Rightarrow> string set" where
  "tasksOf s e = {k. \<exists>t. tasks s k = Some t \<and> ExpressionID t = e}"

definition rootsOf :: "'v Service \<Rightarrow> string \<Rightarrow> string set" where
  "rootsOf s e = {k \<in> tasksOf s e. length (lookupList (reverseDependencies s) k) = 0}"

definition resultOf :: "'v Service \<Rightarrow> string \<Rightarrow> 'v option" where
  "resultOf s k = (case tasks s k of None \<Rightarrow> None | Some t \<Rightarrow> Result t)"

definition allRecorded :: "'v Service \<Rightarrow> string \<Rightarrow> bool" where
  "allRecorded s e \<longleftrightarrow> (\<forall>k \<in> tasksOf s e. resultOf s k \<noteq> None)"

text \<open>
  Claim C3 as stated, for an expression \<open>x\<close> recorded at \<open>e\<close>: it is completed exactly
  when every task of it has a result and it has one root task, whose result is the
  result of the expression.
\<close>

definition completedAsStated :: "'v Service \<Rightarrow> string \<Rightarrow> 'v ExpressionData \<Rightarrow> bool" where
  "completedAsStated s e x \<longleftrightarrow>
     (ExpressionData.Status x = Completed \<longleftrightarrow>
        allRecorded s e
        \<and> (\<exists>k. rootsOf s e = {k} \<and> ExpressionData.Result x = resultOf s k))"

text \<open>
  The invariant of the index that gives every expression with a task a root: the task
  that the counter names has no dependents.
\<close>

definition lastRoot :: "'v Service \<Rightarrow> bool" where
  "lastRoot s \<longleftrightarrow> lookupList (reverseDependencies s) (taskName (taskIDCounter s)) = []"

text \<open>
  The invariant of the expressions: an expression is completed exactly when it has a
  task and every task of it has a result, a completed expression holds the result of
  one of its roots, and every expression with a task has a root.
\<close>

definition completedWhenRecorded :: "'v Service \<Rightarrow> bool" where
  "completedWhenRecorded s \<longleftrightarrow>
     (\<forall>e x. expressions s e = Some x \<longrightarrow>
        (ExpressionData.Status x = Completed \<longleftrightarrow> tasksOf s e \<noteq> {} \<and> allRecorded s e)
        \<and> (ExpressionData.Status x = Completed \<longrightarrow>
              (\<exists>k \<in> rootsOf s e. ExpressionData.Result x = resultOf s k)))
     \<and> (\<forall>e. tasksOf s e \<noteq> {} \<longrightarrow> rootsOf s e \<noteq> {})"

section \<open>Properties of the tokenizer\<close>

lemma char_le_iff: "(a::char) \<le> b \<longleftrightarrow> (of_char a :: nat) \<le> of_char b"
  by (simp add: less_eq_char_def)

lemma digit_range: "(CHR ''0'' \<le> c \<and> c \<le> CHR ''9'') \<longleftrightarrow> isDigit c"
proof
  assume a: "CHR ''0'' \<le> c \<and> c \<le> CHR ''9''"
  define n where "n = (of_char c :: nat)"
  from a have "48 \<le> n \<and> n \<le> 57" by (simp add: char_le_iff n_def)
  then have "n = 48 \<or> n = 49 \<or> n = 50 \<or> n = 51 \<or> n = 52 \<or> n = 53 \<or> n = 54 \<or> n = 55 \<or> n = 56 \<or> n = 57"
    by arith
  then have "of_char c \<in> (of_char ` set ''0123456789'' :: nat set)"
    by (auto simp: n_def)
  then show "isDigit c" unfolding isDigit_def
    by (simp only: inj_image_mem_iff[OF inj_of_char])
next
  assume "isDigit c" then show "CHR ''0'' \<le> c \<and> c \<le> CHR ''9''"
    by (auto simp: isDigit_def)
qed

lemma byteToString_ascii: "(of_char b :: nat) < 128 \<Longrightarrow> byteToString b = [b]"
  by (simp add: byteToString_def)

lemma byteToString_high:
  assumes "\<not> (of_char b :: nat) < 128"
  shows "\<exists>x y. byteToString b = [x, y] \<and> (of_char x::nat) \<ge> 192"
proof -
  have "(of_char b :: nat) < 256" by simp
  then have "192 + (of_char b :: nat) div 64 < 256" by arith
  then have "(of_char (char_of (192 + (of_char b :: nat) div 64)) :: nat) = 192 + (of_char b :: nat) div 64"
    by (simp add: of_char_of)
  then show ?thesis using assms by (simp add: byteToString_def Let_def)
qed

lemma digit_test: "(byteToString b \<ge> ''0'' \<and> byteToString b \<le> ''9'') \<longleftrightarrow> isDigit b"
proof (cases "(of_char b :: nat) < 128")
  case True
  then show ?thesis using digit_range[of b] by (auto simp: byteToString_ascii)
next
  case False
  from byteToString_high[OF False] obtain x y
    where xy: "byteToString b = [x, y]" "(of_char x::nat) \<ge> 192" by blast
  have "\<not> isDigit b" using False by (auto simp: isDigit_def)
  moreover have "\<not> [x, y] \<le> ''9''" using xy(2) by (auto simp: char_le_iff less_char_def)
  ultimately show ?thesis by (simp add: xy)
qed

lemma single_test:
  assumes "(of_char c :: nat) < 128"
  shows "byteToString b = [c] \<longleftrightarrow> b = c"
proof (cases "(of_char b :: nat) < 128")
  case True
  then show ?thesis by (simp add: byteToString_ascii)
next
  case False
  from byteToString_high[OF False] obtain x y where xy: "byteToString b = [x, y]" by blast
  show ?thesis using False assms by (auto simp: xy)
qed

lemma number_test:
  "((byteToString b \<ge> ''0'' \<and> byteToString b \<le> ''9'') \<or> byteToString b = ''.'') \<longleftrightarrow> numberByte b"
  by (simp add: digit_test single_test numberByte_def)

lemma symbol_test:
  "(isOperator (byteToString b) \<or> byteToString b = ''('' \<or> byteToString b = '')'') \<longleftrightarrow> symbolByte b"
  by (auto simp add: isOperator_def single_test symbolByte_def)

lemma number_ascii: "numberByte b \<Longrightarrow> byteToString b = [b]"
  by (auto simp: numberByte_def isDigit_def byteToString_def)

lemma symbol_ascii: "symbolByte b \<Longrightarrow> byteToString b = [b]"
  by (auto simp: symbolByte_def byteToString_def)

lemma tokenize_loop_step:
  "tokenize_loop (b # rest) tokens currentNumber =
     (if numberByte b then tokenize_loop rest tokens (currentNumber @ [b])
      else if symbolByte b then
        tokenize_loop rest (if currentNumber \<noteq> [] then tokens @ [currentNumber, [b]] else tokens @ [[b]]) []
      else Inl (InvalidCharacter (byteToString b)))"
proof -
  consider "numberByte b" | "\<not> numberByte b" "symbolByte b" | "\<not> numberByte b" "\<not> symbolByte b"
    by blast
  then show ?thesis
  proof cases
    case 1
    then show ?thesis using number_test[of b] by (simp add: number_ascii Let_def)
  next
    case 2
    then show ?thesis using number_test[of b] symbol_test[of b]
      by (auto simp add: symbol_ascii Let_def)
  next
    case 3
    then show ?thesis using number_test[of b] symbol_test[of b]
      by (auto simp add: Let_def)
  qed
qed


declare tokenize_loop.simps(2) [simp del]

lemma separated_snoc:
  "separated (ts @ [x]) \<longleftrightarrow> separated ts \<and> (ts = [] \<or> \<not> (numericToken (last ts) \<and> numericToken x))"
  by (induction ts rule: separated.induct) auto

definition tokensOK :: "string list \<Rightarrow> bool" where
  "tokensOK ts \<longleftrightarrow> list_all (\<lambda>t. symbolToken t \<or> numericToken t) ts \<and> separated ts
     \<and> (ts = [] \<or> symbolToken (last ts))"

lemma symbolToken_single: "symbolByte b \<Longrightarrow> symbolToken [b]"
  by (auto simp: symbolByte_def symbolToken_def isOperator_def)

lemma symbol_not_numeric: "symbolToken t \<Longrightarrow> \<not> numericToken t"
  by (auto simp: symbolToken_def numericToken_def isOperator_def numberByte_def isDigit_def)

lemma tokensOK_push:
  assumes "tokensOK ts" "symbolByte b"
  shows "tokensOK (ts @ [[b]])"
    and "numericToken cur \<Longrightarrow> tokensOK (ts @ [cur, [b]])"
proof -
  show "tokensOK (ts @ [[b]])"
    using assms symbol_not_numeric[OF symbolToken_single[OF assms(2)]]
    by (auto simp: tokensOK_def separated_snoc symbolToken_single)
  assume c: "numericToken cur"
  have "separated ((ts @ [cur]) @ [[b]])"
    using assms c symbol_not_numeric[OF symbolToken_single[OF assms(2)]] symbol_not_numeric[of "last ts"]
    unfolding separated_snoc by (auto simp: tokensOK_def)
  then show "tokensOK (ts @ [cur, [b]])"
    using assms c by (auto simp: tokensOK_def symbolToken_single)
qed

lemma tokenize_loop_concat:
  "tokenize_loop xs tokens cur = Inr (tokens', cur')
     \<Longrightarrow> concat tokens' @ cur' = concat tokens @ cur @ xs"
  by (induction xs arbitrary: tokens cur) (auto simp: tokenize_loop_step split: if_splits)

lemma tokenize_loop_ok:
  "tokenize_loop xs tokens cur = Inr (tokens', cur') \<Longrightarrow> tokensOK tokens
     \<Longrightarrow> list_all numberByte cur \<Longrightarrow> tokensOK tokens' \<and> list_all numberByte cur'"
proof (induction xs arbitrary: tokens cur)
  case Nil
  then show ?case by simp
next
  case (Cons b rest)
  consider "numberByte b" | "\<not> numberByte b" "symbolByte b" "cur \<noteq> []"
    | "\<not> numberByte b" "symbolByte b" "cur = []" | "\<not> numberByte b" "\<not> symbolByte b"
    by blast
  then show ?case
  proof cases
    case 1
    with Cons.prems have "tokenize_loop rest tokens (cur @ [b]) = Inr (tokens', cur')"
      by (simp add: tokenize_loop_step)
    from Cons.IH[OF this] show ?thesis using Cons.prems 1 by simp
  next
    case 2
    with Cons.prems have l: "tokenize_loop rest (tokens @ [cur, [b]]) [] = Inr (tokens', cur')"
      by (simp add: tokenize_loop_step)
    have "tokensOK (tokens @ [cur, [b]])"
      using tokensOK_push(2)[of tokens b cur] Cons.prems 2 by (simp add: numericToken_def)
    from Cons.IH[OF l this] show ?thesis by simp
  next
    case 3
    with Cons.prems have l: "tokenize_loop rest (tokens @ [[b]]) [] = Inr (tokens', cur')"
      by (simp add: tokenize_loop_step)
    have "tokensOK (tokens @ [[b]])"
      using tokensOK_push(1)[of tokens b] Cons.prems 3 by simp
    from Cons.IH[OF l this] show ?thesis by simp
  next
    case 4
    with Cons.prems show ?thesis by (simp add: tokenize_loop_step)
  qed
qed

lemma tokenize_loop_fails:
  assumes "list_all allowedByte pre" "\<not> allowedByte c"
  shows "tokenize_loop (pre @ c # post) tokens cur = Inl (InvalidCharacter (byteToString c))"
  using assms
  by (induction pre arbitrary: tokens cur) (auto simp: tokenize_loop_step allowedByte_def)

lemma first_bad_byte:
  assumes "\<not> list_all allowedByte input"
  shows "\<exists>pre c post. input = pre @ c # post \<and> list_all allowedByte pre \<and> \<not> allowedByte c"
  using assms
proof (induction input)
  case Nil
  then show ?case by simp
next
  case (Cons a input)
  show ?case
  proof (cases "allowedByte a")
    case True
    with Cons obtain pre c post where "input = pre @ c # post" "list_all allowedByte pre" "\<not> allowedByte c"
      by auto
    then have "a # input = (a # pre) @ c # post \<and> list_all allowedByte (a # pre) \<and> \<not> allowedByte c"
      using True by simp
    then show ?thesis by blast
  next
    case False
    then have "a # input = [] @ a # input \<and> list_all allowedByte [] \<and> \<not> allowedByte a" by simp
    then show ?thesis by blast
  qed
qed

lemma tokenize_shape:
  assumes "tokenize input = Inr tokens"
  shows "list_all (\<lambda>t. symbolToken t \<or> numericToken t) tokens"
proof -
  from assms obtain ts cur where l: "tokenize_loop input [] [] = Inr (ts, cur)"
    and t: "tokens = (if cur \<noteq> [] then ts @ [cur] else ts)"
    by (auto simp: tokenize_def split: sum.splits if_splits)
  have "tokensOK ts \<and> list_all numberByte cur"
    using tokenize_loop_ok[OF l] by (simp add: tokensOK_def)
  then show ?thesis by (auto simp: t tokensOK_def numericToken_def)
qed

text \<open>
  Claim C8, as amended.  When \<open>tokenize\<close> succeeds, the tokens concatenated give back
  the input, every token is one operator or parenthesis or else a non-empty run of
  digits and decimal points (any number of points), and no two such runs are
  neighbours.  When the input holds a byte that is no digit, decimal point, operator or
  parenthesis, \<open>tokenize\<close> fails with the invalid-character error at the first such
  byte, and the error names that byte when it is ASCII.
\<close>

theorem tokenize_tokens:
  "(tokenize input = Inr tokens \<longrightarrow>
      concat tokens = input \<and> list_all (\<lambda>t. symbolToken t \<or> numericToken t) tokens \<and> separated tokens)
   \<and> (\<not> list_all allowedByte input \<longrightarrow>
      (\<exists>pre c post e. input = pre @ c # post \<and> list_all allowedByte pre \<and> \<not> allowedByte c
         \<and> tokenize input = Inl (InvalidCharacter e) \<and> ((of_char c :: nat) < 128 \<longrightarrow> e = [c])))"
proof (intro conjI impI)
  assume a: "tokenize input = Inr tokens"
  then obtain ts cur where l: "tokenize_loop input [] [] = Inr (ts, cur)"
    and t: "tokens = (if cur \<noteq> [] then ts @ [cur] else ts)"
    by (auto simp: tokenize_def split: sum.splits if_splits)
  from tokenize_loop_concat[OF l] show "concat tokens = input" by (auto simp: t)
  have ok: "tokensOK ts \<and> list_all numberByte cur"
    using tokenize_loop_ok[OF l] by (simp add: tokensOK_def)
  then show "list_all (\<lambda>t. symbolToken t \<or> numericToken t) tokens"
    by (auto simp: t tokensOK_def numericToken_def)
  show "separated tokens"
    using ok symbol_not_numeric[of "last ts"] by (auto simp: t tokensOK_def separated_snoc)
next
  assume "\<not> list_all allowedByte input"
  from first_bad_byte[OF this] obtain pre c post
    where p: "input = pre @ c # post" "list_all allowedByte pre" "\<not> allowedByte c" by blast
  have "tokenize input = Inl (InvalidCharacter (byteToString c))"
    using tokenize_loop_fails[OF p(2,3)] by (simp add: tokenize_def p(1))
  then show "\<exists>pre c post e. input = pre @ c # post \<and> list_all allowedByte pre \<and> \<not> allowedByte c
         \<and> tokenize input = Inl (InvalidCharacter e) \<and> ((of_char c :: nat) < 128 \<longrightarrow> e = [c])"
    using p byteToString_ascii by blast
qed

text \<open>The theorem at the inputs \<open>1.2.3+(4)\<close> and \<open>2+a\<close>.\<close>

theorem tokenize_tokens_witness:
  "tokenize ''1.2.3+(4)'' = Inr [''1.2.3'', ''+'', ''('', ''4'', '')'']
   \<and> concat [''1.2.3'', ''+'', ''('', ''4'', '')''] = ''1.2.3+(4)''
   \<and> separated [''1.2.3'', ''+'', ''('', ''4'', '')'']
   \<and> \<not> list_all allowedByte ''2+a''
   \<and> tokenize ''2+a'' = Inl (InvalidCharacter ''a'')"
proof -
  have t: "tokenize ''1.2.3+(4)'' = Inr [''1.2.3'', ''+'', ''('', ''4'', '')'']"
    by (simp add: tokenize_def tokenize_loop.simps(2) byteToString_def isOperator_def)
  have b: "\<not> list_all allowedByte ''2+a''"
    by (simp add: allowedByte_def numberByte_def symbolByte_def isDigit_def)
  have e: "tokenize ''2+a'' = Inl (InvalidCharacter ''a'')"
    by (simp add: tokenize_def tokenize_loop.simps(2) byteToString_def isOperator_def)
  show ?thesis
    using tokenize_tokens[of "''1.2.3+(4)''" "[''1.2.3'', ''+'', ''('', ''4'', '')'']"] tokenize_tokens[of "''2+a''"] t b e
    by simp
qed

text \<open>
  Claim C8 as stated fails: the input \<open>1.2.3\<close> is accepted and comes back as one
  token with two decimal points.
\<close>

theorem tokenize_two_points_counterexample:
  "\<not> (\<forall>input tokens. tokenize input = Inr tokens \<longrightarrow>
        (\<forall>t \<in> set tokens. length (filter (\<lambda>c. c = CHR ''.'') t) \<le> 1))"
proof
  assume a: "\<forall>input tokens. tokenize input = Inr tokens \<longrightarrow>
        (\<forall>t \<in> set tokens. length (filter (\<lambda>c. c = CHR ''.'') t) \<le> 1)"
  have "tokenize ''1.2.3'' = Inr [''1.2.3'']"
    by (simp add: tokenize_def tokenize_loop.simps(2) byteToString_def isOperator_def)
  with a have "length (filter (\<lambda>c. c = CHR ''.'') ''1.2.3'') \<le> 1" by fastforce
  then show False by simp
qed

section \<open>Correctness of the conversion to postfix\<close>

lemma popOperators_all:
  assumes "list_all (\<lambda>b. b \<noteq> ''('' \<and> getPrecedence token \<le> getPrecedence b) B"
    and "stk = [] \<or> last stk = ''('' \<or> getPrecedence (last stk) < getPrecedence token"
  shows "popOperators token out (stk @ B) = (out @ rev B, stk)"
  using assms
proof (induction B arbitrary: out rule: rev_induct)
  case Nil
  then show ?case
    by (subst popOperators.simps) (auto simp: hasHigherPrecedence_def)
next
  case (snoc b B)
  have "popOperators token out (stk @ B @ [b]) = popOperators token (out @ [b]) (stk @ B)"
    using snoc.prems(1)
    by (subst popOperators.simps) (simp add: hasHigherPrecedence_def butlast_append)
  then show ?case using snoc by simp
qed

lemma popToParen_all:
  assumes "list_all (\<lambda>b. b \<noteq> ''('') B"
  shows "popToParen out (stk @ [''(''] @ B) = (out @ rev B, stk @ [''(''])"
  using assms
proof (induction B arbitrary: out rule: rev_induct)
  case Nil
  then show ?case by (subst popToParen.simps) simp
next
  case (snoc b B)
  have "popToParen out (stk @ [''(''] @ B @ [b]) = popToParen (out @ [b]) (stk @ [''(''] @ B)"
    using snoc.prems
    by (subst popToParen.simps) (simp add: butlast_append)
  then show ?case using snoc by simp
qed

lemma drainOperators_all:
  assumes "list_all (\<lambda>b. b \<noteq> ''('') B"
  shows "drainOperators out B = Inr (out @ rev B)"
  using assms
proof (induction B arbitrary: out rule: rev_induct)
  case Nil
  then show ?case by (subst drainOperators.simps) simp
next
  case (snoc b B)
  have "drainOperators out (B @ [b]) = drainOperators (out @ [b]) B"
    using snoc.prems by (subst drainOperators.simps) simp
  then show ?case using snoc by simp
qed

lemma symbolsRejected_simps:
  assumes "symbolsRejected parseFloat"
  shows "isOperator t \<Longrightarrow> \<not> isNumber parseFloat t"
    and "\<not> isNumber parseFloat ''(''" and "\<not> isNumber parseFloat '')''"
  using assms by (auto simp: symbolsRejected_def isOperator_def isNumber_def)

lemma operator_not_paren: "isOperator t \<Longrightarrow> t \<noteq> ''('' \<and> t \<noteq> '')''"
  by (auto simp: isOperator_def)

text \<open>
  Reading the tokens of a valid expression from any state whose operator stack does
  not bind as strongly as the expression appends part of the postfix order to the
  output and leaves the rest, operators that bind at least as strongly as the
  expression, on the stack.
\<close>

lemma shuntingYard_loop_expression:
  assumes "symbolsRejected parseFloat"
  shows "validInfix parseFloat e
    \<Longrightarrow> stk = [] \<or> last stk = ''('' \<or> getPrecedence (last stk) < level e
    \<Longrightarrow> \<exists>A B. (\<forall>rest. shuntingYard_loop parseFloat (tokensOf e @ rest) out stk
                    = shuntingYard_loop parseFloat rest (out @ A) (stk @ B))
          \<and> A @ rev B = postfixOf e
          \<and> list_all (\<lambda>b. isOperator b \<and> level e \<le> getPrecedence b) B"
proof (induction e arbitrary: out stk)
  case (Number t)
  then have "\<forall>rest. shuntingYard_loop parseFloat (tokensOf (Number t) @ rest) out stk
                    = shuntingYard_loop parseFloat rest (out @ [t]) (stk @ [])"
    by simp
  then show ?case by (intro exI[of _ "[t]"] exI[of _ "[]"]) simp
next
  case (Binary l operator r)
  from Binary.prems have v: "isOperator operator" "validInfix parseFloat l" "validInfix parseFloat r"
    "getPrecedence operator \<le> level l" "getPrecedence operator < level r"
    by simp_all
  have blocked: "stk = [] \<or> last stk = ''('' \<or> getPrecedence (last stk) < getPrecedence operator"
    using Binary.prems(2) by simp
  then have "stk = [] \<or> last stk = ''('' \<or> getPrecedence (last stk) < level l"
    using v(4) by auto
  from Binary.IH(1)[OF v(2) this, of out] obtain Al Bl where
    l: "\<And>rest. shuntingYard_loop parseFloat (tokensOf l @ rest) out stk
                    = shuntingYard_loop parseFloat rest (out @ Al) (stk @ Bl)"
    and pl: "Al @ rev Bl = postfixOf l"
    and bl: "list_all (\<lambda>b. isOperator b \<and> level l \<le> getPrecedence b) Bl"
    by blast
  have "list_all (\<lambda>b. b \<noteq> ''('' \<and> getPrecedence operator \<le> getPrecedence b) Bl"
    using bl v(4) operator_not_paren by (auto simp: list_all_iff)
  from popOperators_all[OF this blocked]
  have pop: "popOperators operator (out @ Al) (stk @ Bl) = (out @ Al @ rev Bl, stk)"
    by simp
  have "last (stk @ [operator]) = operator" by simp
  then have "stk @ [operator] = [] \<or> last (stk @ [operator]) = ''(''
      \<or> getPrecedence (last (stk @ [operator])) < level r"
    using v(5) by simp
  from Binary.IH(2)[OF v(3) this, of "out @ Al @ rev Bl"] obtain Ar Br where
    r: "\<And>rest. shuntingYard_loop parseFloat (tokensOf r @ rest) (out @ Al @ rev Bl) (stk @ [operator])
                    = shuntingYard_loop parseFloat rest ((out @ Al @ rev Bl) @ Ar) ((stk @ [operator]) @ Br)"
    and pr: "Ar @ rev Br = postfixOf r"
    and br: "list_all (\<lambda>b. isOperator b \<and> level r \<le> getPrecedence b) Br"
    by blast
  have step: "\<forall>rest. shuntingYard_loop parseFloat (tokensOf (Binary l operator r) @ rest) out stk
      = shuntingYard_loop parseFloat rest (out @ (Al @ rev Bl @ Ar)) (stk @ (operator # Br))"
  proof
    fix rest
    have "shuntingYard_loop parseFloat (tokensOf (Binary l operator r) @ rest) out stk
        = shuntingYard_loop parseFloat (operator # tokensOf r @ rest) (out @ Al) (stk @ Bl)"
      using l[of "operator # tokensOf r @ rest"] by simp
    also have "\<dots> = shuntingYard_loop parseFloat (tokensOf r @ rest) (out @ Al @ rev Bl) (stk @ [operator])"
      using symbolsRejected_simps(1)[OF assms v(1)] v(1) pop by simp
    also have "\<dots> = shuntingYard_loop parseFloat rest (out @ (Al @ rev Bl @ Ar)) (stk @ (operator # Br))"
      using r[of rest] by simp
    finally show "shuntingYard_loop parseFloat (tokensOf (Binary l operator r) @ rest) out stk
      = shuntingYard_loop parseFloat rest (out @ (Al @ rev Bl @ Ar)) (stk @ (operator # Br))" .
  qed
  have post: "(Al @ rev Bl @ Ar) @ rev (operator # Br) = postfixOf (Binary l operator r)"
    using pl pr by (metis append.assoc postfixOf.simps(2) rev.simps(2))
  have "list_all (\<lambda>b. isOperator b \<and> level (Binary l operator r) \<le> getPrecedence b) (operator # Br)"
    using br v(1,5) by (auto simp: list_all_iff)
  with step post show ?case by blast
next
  case (Parens e)
  have "stk @ [''(''] = [] \<or> last (stk @ [''('']) = ''('' \<or> getPrecedence (last (stk @ [''(''])) < level e"
    by simp
  from Parens.IH[OF _ this, of out] Parens.prems obtain A B where
    e: "\<And>rest. shuntingYard_loop parseFloat (tokensOf e @ rest) out (stk @ [''(''])
                    = shuntingYard_loop parseFloat rest (out @ A) ((stk @ [''('']) @ B)"
    and p: "A @ rev B = postfixOf e"
    and b: "list_all (\<lambda>b. isOperator b \<and> level e \<le> getPrecedence b) B"
    by auto
  have "list_all (\<lambda>b. b \<noteq> ''('') B"
    using b operator_not_paren by (auto simp: list_all_iff)
  from popToParen_all[OF this]
  have pop: "popToParen (out @ A) (stk @ [''(''] @ B) = (out @ A @ rev B, stk @ [''(''])"
    by simp
  have "\<forall>rest. shuntingYard_loop parseFloat (tokensOf (Parens e) @ rest) out stk
      = shuntingYard_loop parseFloat rest (out @ (A @ rev B)) (stk @ [])"
  proof
    fix rest
    have "shuntingYard_loop parseFloat (tokensOf (Parens e) @ rest) out stk
        = shuntingYard_loop parseFloat (tokensOf e @ '')'' # rest) out (stk @ [''(''])"
      using symbolsRejected_simps(2)[OF assms] by (simp add: isOperator_def)
    also have "\<dots> = shuntingYard_loop parseFloat ('')'' # rest) (out @ A) (stk @ [''(''] @ B)"
      using e[of "'')'' # rest"] by simp
    also have "\<dots> = shuntingYard_loop parseFloat rest (out @ (A @ rev B)) (stk @ [])"
      using symbolsRejected_simps(3)[OF assms] pop by (simp add: isOperator_def)
    finally show "shuntingYard_loop parseFloat (tokensOf (Parens e) @ rest) out stk
      = shuntingYard_loop parseFloat rest (out @ (A @ rev B)) (stk @ [])" .
  qed
  then show ?case using p by (intro exI[of _ "A @ rev B"] exI[of _ "[]"]) simp
qed

lemma shuntingYard_postfixOf:
  assumes "symbolsRejected parseFloat" "validInfix parseFloat e"
  shows "shuntingYard parseFloat (tokensOf e) = Inr (postfixOf e)"
proof -
  from shuntingYard_loop_expression[OF assms, of "[]" "[]"] obtain A B where
    l: "\<And>rest. shuntingYard_loop parseFloat (tokensOf e @ rest) [] []
                    = shuntingYard_loop parseFloat rest ([] @ A) ([] @ B)"
    and p: "A @ rev B = postfixOf e"
    and b: "list_all (\<lambda>b. isOperator b \<and> level e \<le> getPrecedence b) B"
    by auto
  have "list_all (\<lambda>b. b \<noteq> ''('') B"
    using b operator_not_paren by (auto simp: list_all_iff)
  from drainOperators_all[OF this, of A] l[of "[]"] p show ?thesis
    by (simp add: shuntingYard_def)
qed

lemma evalPostfix_loop_postfixOf:
  assumes "symbolsRejected parseFloat"
  shows "validInfix parseFloat e \<Longrightarrow>
    evalPostfix_loop parseFloat compute (postfixOf e @ rest) stack =
      (case evalInfix parseFloat compute e of
         None \<Rightarrow> None
       | Some v \<Rightarrow> evalPostfix_loop parseFloat compute rest (v # stack))"
proof (induction e arbitrary: rest stack)
  case (Number t)
  then have "\<not> isOperator t" using symbolsRejected_simps(1)[OF assms] by auto
  then show ?case by simp
next
  case (Binary l operator r)
  then show ?case by (auto split: option.splits)
next
  case (Parens e)
  then show ?case by simp
qed

text \<open>
  Claim C1.  For every valid infix expression, \<open>shuntingYard\<close> accepts its token stream,
  and left-to-right stack evaluation of the postfix output gives the value that direct
  evaluation of the infix expression gives (and fails where that fails), whatever the
  arithmetic of the operations is.
\<close>

theorem shuntingYard_preserves_value:
  assumes "symbolsRejected parseFloat" and "validInfix parseFloat e"
  shows "\<exists>postfix. shuntingYard parseFloat (tokensOf e) = Inr postfix
           \<and> evalPostfix parseFloat compute postfix = evalInfix parseFloat compute e"
proof -
  have "evalPostfix parseFloat compute (postfixOf e) = evalInfix parseFloat compute e"
    using evalPostfix_loop_postfixOf[OF assms, of compute "[]" "[]"]
    by (simp add: evalPostfix_def split: option.splits)
  with shuntingYard_postfixOf[OF assms] show ?thesis by blast
qed

text \<open>The theorem at the expression \<open>2+2*2\<close>, evaluated over the real numbers.\<close>

theorem shuntingYard_preserves_value_witness:
  "symbolsRejected parseDecimal
   \<and> validInfix parseDecimal
        (Binary (Number ''2'') ''+'' (Binary (Number ''2'') ''*'' (Number ''2'')))
   \<and> tokensOf (Binary (Number ''2'') ''+'' (Binary (Number ''2'') ''*'' (Number ''2'')))
        = [''2'', ''+'', ''2'', ''*'', ''2'']
   \<and> (\<exists>postfix. shuntingYard parseDecimal [''2'', ''+'', ''2'', ''*'', ''2''] = Inr postfix
         \<and> evalPostfix parseDecimal computeOperation postfix = Some 6)"
proof -
  let ?e = "Binary (Number ''2'') ''+'' (Binary (Number ''2'') ''*'' (Number ''2''))"
  have s: "symbolsRejected parseDecimal"
    by (simp add: symbolsRejected_def parseDecimal_def isDigit_def)
  have v: "validInfix parseDecimal ?e"
    by (simp add: isNumber_def parseDecimal_def isDigit_def isOperator_def getPrecedence_def)
  have e: "evalInfix parseDecimal computeOperation ?e = Some 6"
    by (simp add: parseDecimal_def isDigit_def computeOperation_def ProcessOperation_def
        Addition_def Subtraction_def Multiplication_def)
  show ?thesis
    using shuntingYard_preserves_value[OF s v, of computeOperation] s v e by simp
qed

section \<open>Scenarios\<close>

lemma taskName_1: "taskName 1 = ''task_1''"
  by (simp add: taskName_def formatInt_def digitsOf.simps digitChar_def)

lemma taskName_2: "taskName 2 = ''task_2''"
  by (simp add: taskName_def formatInt_def digitsOf.simps digitChar_def)

lemma enumerates_two:
  assumes "enumerates keys {a, b}" "a \<noteq> b"
  shows "keys = [a, b] \<or> keys = [b, a]"
proof -
  from assms have d: "distinct keys" and s: "set keys = {a, b}" by (auto simp: enumerates_def)
  then have "length keys = 2" using assms(2) distinct_card[OF d] by simp
  then obtain x y where k: "keys = [x, y]"
    by (metis One_nat_def Suc_1 length_0_conv length_Suc_conv)
  with d s show ?thesis by (auto simp: doubleton_eq_iff)
qed

lemma compile_2p2m2:
  assumes "symbolsRejected parseFloat" "isNumber parseFloat ''2''"
  shows "tokenize ''2+2*2'' = Inr [''2'', ''+'', ''2'', ''*'', ''2'']"
    and "shuntingYard parseFloat [''2'', ''+'', ''2'', ''*'', ''2'']
           = Inr [''2'', ''2'', ''2'', ''*'', ''+'']"
proof -
  show "tokenize ''2+2*2'' = Inr [''2'', ''+'', ''2'', ''*'', ''2'']"
    by (simp add: tokenize_def tokenize_loop.simps(2) byteToString_def isOperator_def Let_def)
  have n: "\<not> isNumber parseFloat ''+''" "\<not> isNumber parseFloat ''*''"
    using assms(1) by (simp_all add: symbolsRejected_def isNumber_def)
  show "shuntingYard parseFloat [''2'', ''+'', ''2'', ''*'', ''2'']
          = Inr [''2'', ''2'', ''2'', ''*'', ''+'']"
    using assms(2) n
    by (simp add: shuntingYard_def isOperator_def popOperators.simps drainOperators.simps
        hasHigherPrecedence_def getPrecedence_def)
qed

lemmas scenario_defs = SubmitExpression_def parseExpression_def createTasksFromPostfix_def
  createTask_def NewService_def Let_def taskName_1 taskName_2 lookupList_def isOperator_def
  multiplicationTask_def additionTask_def Addition_def Multiplication_def Subtraction_def
  Division_def SetTaskResult_def updateExpressionStatus_def updateDependencies_def
  GetTask_def insert_commute

lemma parseDecimal_symbols: "symbolsRejected parseDecimal"
  by (simp add: symbolsRejected_def parseDecimal_def isDigit_def)

lemma parseDecimal_2: "isNumber parseDecimal ''2''"
  by (simp add: isNumber_def parseDecimal_def isDigit_def)

text \<open>
  Claim C5.  Submitting \<open>2+2*2\<close> to a new service creates exactly the two tasks
  \<open>task_1\<close>, the multiplication of 2 and 2, which is ready at once, and \<open>task_2\<close>,
  the addition of 2 and \<open>task_1\<close>, which depends on it.  Recording 4 for \<open>task_1\<close>
  makes \<open>task_2\<close> ready with the operands 2 and the \<open>%f\<close> text of 4; recording 6 for
  \<open>task_2\<close> completes the expression with result 6.  This holds in whatever order the
  loops visit the task map.
\<close>

theorem scenario_two_tasks:
  fixes formatFloat :: "'v::numeral \<Rightarrow> string"
  assumes "symbolsRejected parseFloat" and "isNumber parseFloat ''2''"
    and "enumerates keys1 {''task_1'', ''task_2''}"
    and "enumerates keys2 {''task_1'', ''task_2''}"
    and "enumerates keys3 {''task_1'', ''task_2''}"
  shows "\<exists>s1 s2 s3.
      SubmitExpression parseFloat id' ''2+2*2'' keys1 (NewService times') = (Inr id', s1)
    \<and> dom (tasks s1) = {''task_1'', ''task_2''}
    \<and> tasks s1 ''task_1'' = Some (multiplicationTask id' times')
    \<and> tasks s1 ''task_2'' = Some (additionTask id' times' ''task_1'')
    \<and> readyTasks s1 = {''task_1''}
    \<and> SetTaskResult formatFloat ''task_1'' 4 keys2 s1 = Some (None, s2)
    \<and> ''task_2'' \<in> readyTasks s2
    \<and> tasks s2 ''task_2'' = Some (additionTask id' times' (formatFloat 4))
    \<and> SetTaskResult formatFloat ''task_2'' 6 keys3 s2 = Some (None, s3)
    \<and> expressions s3 id' = Some \<lparr> ExpressionData.ID = id', Expression = ''2+2*2'',
          ExpressionData.Status = Completed, ExpressionData.Result = Some 6 \<rparr>"
proof -
  have k: "keys1 = [''task_1'', ''task_2''] \<or> keys1 = [''task_2'', ''task_1'']"
    "keys2 = [''task_1'', ''task_2''] \<or> keys2 = [''task_2'', ''task_1'']"
    "keys3 = [''task_1'', ''task_2''] \<or> keys3 = [''task_2'', ''task_1'']"
    using assms(3-5) by (simp_all add: enumerates_two)
  note c = compile_2p2m2[OF assms(1,2)]
  from k show ?thesis
    by (elim disjE) (simp_all add: scenario_defs c)
qed

text \<open>The scenario with the decimal parser, whole-number results and one order of the keys.\<close>

theorem scenario_two_tasks_witness:
  "symbolsRejected parseDecimal \<and> isNumber parseDecimal ''2''
   \<and> enumerates [''task_2'', ''task_1''] {''task_1'', ''task_2''}
   \<and> (\<exists>s1 s2 s3.
      SubmitExpression parseDecimal ''e1'' ''2+2*2'' [''task_2'', ''task_1''] (NewService unitTimes)
        = (Inr ''e1'', s1)
    \<and> dom (tasks s1) = {''task_1'', ''task_2''}
    \<and> tasks s1 ''task_1'' = Some (multiplicationTask ''e1'' unitTimes)
    \<and> tasks s1 ''task_2'' = Some (additionTask ''e1'' unitTimes ''task_1'')
    \<and> readyTasks s1 = {''task_1''}
    \<and> SetTaskResult formatWhole ''task_1'' 4 [''task_2'', ''task_1''] s1 = Some (None, s2)
    \<and> ''task_2'' \<in> readyTasks s2
    \<and> tasks s2 ''task_2'' = Some (additionTask ''e1'' unitTimes (formatWhole 4))
    \<and> SetTaskResult formatWhole ''task_2'' 6 [''task_2'', ''task_1''] s2 = Some (None, s3)
    \<and> expressions s3 ''e1'' = Some \<lparr> ExpressionData.ID = ''e1'', Expression = ''2+2*2'',
          ExpressionData.Status = Completed, ExpressionData.Result = Some 6 \<rparr>)
   \<and> formatWhole 4 = ''4.000000''"
proof -
  have e: "enumerates [''task_2'', ''task_1''] {''task_1'', ''task_2''}"
    by (auto simp: enumerates_def)
  have f: "formatWhole 4 = ''4.000000''"
    by (simp add: formatWhole_def digitsOf.simps digitChar_def)
  note t = scenario_two_tasks[OF parseDecimal_symbols parseDecimal_2 e e e,
      of "''e1''" unitTimes formatWhole]
  show ?thesis
    by (intro conjI) (rule parseDecimal_symbols parseDecimal_2 e t f)+
qed

text \<open>
  Claim C7.  A request whose expression text is empty fails the binding of the
  handler, which answers with status 422 and does not call the store: the state,
  and with it the map of expressions, is the one before the request.
\<close>

theorem empty_expression_rejected:
  "CalculateExpression parseFloat (Some '''') id' keys s
     = (StatusUnprocessableEntity (Inl BindingFailed), s)"
  by (simp add: CalculateExpression_def ShouldBindJSON_def)

text \<open>The same on a new service: no expression is recorded.\<close>

theorem empty_expression_rejected_witness:
  "CalculateExpression parseDecimal (Some '''') ''e1'' [] (NewService unitTimes :: nat Service)
     = (StatusUnprocessableEntity (Inl BindingFailed), NewService unitTimes)
   \<and> expressions (NewService unitTimes :: nat Service) ''e1'' = None"
  using empty_expression_rejected[of parseDecimal "''e1''" "[]" "NewService unitTimes :: nat Service"]
  by (simp add: NewService_def)

text \<open>
  Past the handler, \<open>SubmitExpression\<close> itself does not validate: called with the
  empty text it fails in the task graph builder and records a failed expression.
\<close>

lemma SubmitExpression_empty:
  "SubmitExpression parseFloat id' '''' keys s =
     (Inl TooManyValues,
      s\<lparr> expressions := (expressions s)(id' \<mapsto>
           \<lparr> ExpressionData.ID = id', Expression = '''',
             ExpressionData.Status = Failed, ExpressionData.Result = None \<rparr>) \<rparr>)"
  by (simp add: SubmitExpression_def parseExpression_def tokenize_def shuntingYard_def
      drainOperators.simps createTasksFromPostfix_def)

section \<open>The structural invariant\<close>

lemma digitChar_inj: "d < 10 \<Longrightarrow> e < 10 \<Longrightarrow> digitChar d = digitChar e \<Longrightarrow> d = e"
proof -
  assume a: "d < 10" "e < 10" "digitChar d = digitChar e"
  have "distinct ''0123456789''" by simp
  moreover have "d < length ''0123456789''" "e < length ''0123456789''" using a by simp_all
  ultimately show "d = e" using a(3) unfolding digitChar_def
    by (simp only: nth_eq_iff_index_eq)
qed

lemma digitsOf_nonempty: "digitsOf n \<noteq> []"
  by (subst digitsOf.simps) simp

lemma digitsOf_inj: "digitsOf m = digitsOf n \<Longrightarrow> m = n"
proof (induction m arbitrary: n rule: digitsOf.induct)
  case (1 m)
  show ?case
  proof (cases "m < 10")
    case True
    then have m: "digitsOf m = [digitChar m]" by (subst digitsOf.simps) simp
    show ?thesis
    proof (cases "n < 10")
      case True
      then have "digitsOf n = [digitChar n]" by (subst digitsOf.simps) simp
      with m "1.prems" have "digitChar m = digitChar n" by simp
      then show ?thesis using \<open>m < 10\<close> True by (rule digitChar_inj[rotated 2])
    next
      case False
      then have "digitsOf n = digitsOf (n div 10) @ [digitChar (n mod 10)]"
        by (subst digitsOf.simps) simp
      with m "1.prems" digitsOf_nonempty[of "n div 10"] show ?thesis by simp
    qed
  next
    case False
    then have m: "digitsOf m = digitsOf (m div 10) @ [digitChar (m mod 10)]"
      by (subst digitsOf.simps) simp
    show ?thesis
    proof (cases "n < 10")
      case True
      then have "digitsOf n = [digitChar n]" by (subst digitsOf.simps) simp
      with m "1.prems" digitsOf_nonempty[of "m div 10"] show ?thesis by simp
    next
      case nf: False
      then have "digitsOf n = digitsOf (n div 10) @ [digitChar (n mod 10)]"
        by (subst digitsOf.simps) simp
      with m "1.prems" have e: "digitsOf (m div 10) = digitsOf (n div 10)"
        "digitChar (m mod 10) = digitChar (n mod 10)" by simp_all
      from "1.IH"[OF False e(1)] have "m div 10 = n div 10" .
      moreover have "m mod 10 = n mod 10"
        using e(2) by (intro digitChar_inj) simp_all
      ultimately show ?thesis by (metis div_mult_mod_eq)
    qed
  qed
qed

lemma taskName_inj: "0 \<le> m \<Longrightarrow> 0 \<le> n \<Longrightarrow> taskName m = taskName n \<Longrightarrow> m = n"
  using digitsOf_inj[of "nat m" "nat n"] by (simp add: taskName_def formatInt_def)

lemma keysNamed_fresh:
  assumes "keysNamed s"
  shows "taskName (taskIDCounter s + 1) \<notin> dom (tasks s)"
proof
  assume "taskName (taskIDCounter s + 1) \<in> dom (tasks s)"
  with assms(1) obtain n where n: "0 < n" "n \<le> taskIDCounter s"
    "taskName (taskIDCounter s + 1) = taskName n"
    unfolding keysNamed_def by blast
  from assms have "0 \<le> taskIDCounter s" by (simp add: keysNamed_def)
  with taskName_inj[OF _ _ n(3)] n(1,2) show False by simp
qed


lemma createTask_frame:
  assumes "createTask e a1 a2 operation s = (tid, s')"
  shows "tid = taskName (taskIDCounter s + 1)"
    and "taskIDCounter s' = taskIDCounter s + 1"
    and "expressions s' = expressions s"
    and "completedTasks s' = completedTasks s"
    and "readyTasks s' = readyTasks s"
    and "opTimes s' = opTimes s"
    and "\<And>k. k \<noteq> tid \<Longrightarrow> tasks s' k = tasks s k"
    and "dom (tasks s') = insert tid (dom (tasks s))"
  using assms by (auto simp: createTask_def Let_def)

lemma createTask_task:
  assumes "createTask e a1 a2 operation s = (tid, s')"
  shows "\<exists>t. tasks s' tid = Some t \<and> ExpressionID t = e \<and> Arg1 t = a1 \<and> Arg2 t = a2
           \<and> Result t = None \<and> Operation t = operation
           \<and> set (Dependencies t) = {a1, a2} \<inter> dom (tasks s)"
  using assms by (auto simp: createTask_def Let_def)

lemma createTask_dependents:
  assumes "createTask e a1 a2 operation s = (tid, s')"
  shows "set (lookupList (reverseDependencies s') d) =
           set (lookupList (reverseDependencies s) d)
           \<union> (if d \<in> {a1, a2} \<inter> dom (tasks s) then {tid} else {})"
  using assms by (auto simp: createTask_def Let_def lookupList_def split: if_splits)

lemma createTask_wellFormed:
  assumes c: "createTask e a1 a2 operation s = (tid, s')"
    and w: "wellFormed s" and e: "e \<in> dom (expressions s)"
  shows "wellFormed s'"
proof -
  note f = createTask_frame[OF c]
  from createTask_task[OF c] obtain t where t: "tasks s' tid = Some t" "ExpressionID t = e"
    "Arg1 t = a1" "Arg2 t = a2" "set (Dependencies t) = {a1, a2} \<inter> dom (tasks s)" by blast
  from w have k: "keysNamed s" and x: "expressionsKnown s" and d: "dependenciesKnown s"
    and r: "dependentsKnown s" and rd: "readyTasks s \<subseteq> dom (tasks s)"
    and cd: "completedTasks s \<subseteq> dom (tasks s)"
    by (simp_all add: wellFormed_def)
  have fresh: "tid \<notin> dom (tasks s)" using keysNamed_fresh[OF k] f(1) by simp
  have old: "\<And>k u. tasks s k = Some u \<Longrightarrow> tasks s' k = Some u"
    using f(7) fresh by (metis domI)
  have cases: "\<And>k u. tasks s' k = Some u \<Longrightarrow> (k = tid \<and> u = t) \<or> (k \<noteq> tid \<and> tasks s k = Some u)"
    using f(7) t(1) by (metis option.inject)
  have "keysNamed s'"
    unfolding keysNamed_def f(2) f(8)
  proof (intro conjI ballI)
    show "0 \<le> taskIDCounter s + 1" using k by (simp add: keysNamed_def)
    fix k assume "k \<in> insert tid (dom (tasks s))"
    then consider "k = tid" | "k \<in> dom (tasks s)" by blast
    then show "\<exists>n>0. n \<le> taskIDCounter s + 1 \<and> k = taskName n"
    proof cases
      case 1
      then show ?thesis using f(1) k by (intro exI[of _ "taskIDCounter s + 1"]) (simp add: keysNamed_def)
    next
      case 2
      with k obtain n where "0 < n" "n \<le> taskIDCounter s" "k = taskName n"
        unfolding keysNamed_def by blast
      then show ?thesis by (intro exI[of _ n]) simp
    qed
  qed
  moreover have "expressionsKnown s'"
    unfolding expressionsKnown_def f(3)
    using cases t(2) e x unfolding expressionsKnown_def by blast
  moreover have "dependenciesKnown s'"
    unfolding dependenciesKnown_def f(4) f(8)
  proof (intro allI impI ballI)
    fix k u dd assume a: "tasks s' k = Some u" "dd \<in> set (Dependencies u)"
    from cases[OF a(1)] show "dd \<in> insert tid (dom (tasks s))
        \<and> (dd \<in> completedTasks s \<or> dd = Arg1 u \<or> dd = Arg2 u)"
    proof
      assume "k = tid \<and> u = t"
      then show ?thesis using a(2) t(3,4,5) by auto
    next
      assume "k \<noteq> tid \<and> tasks s k = Some u"
      then show ?thesis using d a(2) unfolding dependenciesKnown_def by blast
    qed
  qed
  moreover have "dependentsKnown s'"
    unfolding dependentsKnown_def
  proof (intro allI ballI)
    fix dd k assume "k \<in> set (lookupList (reverseDependencies s') dd)"
    then consider "k \<in> set (lookupList (reverseDependencies s) dd)"
      | "k = tid" "dd \<in> {a1, a2} \<inter> dom (tasks s)"
      unfolding createTask_dependents[OF c] by (auto split: if_splits)
    then show "\<exists>u. tasks s' k = Some u \<and> dd \<in> set (Dependencies u)"
    proof cases
      case 1
      with r obtain u where "tasks s k = Some u" "dd \<in> set (Dependencies u)"
        unfolding dependentsKnown_def by blast
      then show ?thesis using old by blast
    next
      case 2
      then show ?thesis using t(1,5) by blast
    qed
  qed
  ultimately show ?thesis
    using rd cd unfolding wellFormed_def f(4) f(5) f(8) by blast
qed


lemma extends_refl: "extends e s s"
  by (simp add: extends_def)

lemma extends_trans:
  assumes "extends e s s'" "extends e s' s''"
  shows "extends e s s''"
  unfolding extends_def
proof (intro conjI allI impI)
  fix k u assume "tasks s k = Some u"
  then show "tasks s'' k = Some u" using assms unfolding extends_def by blast
next
  fix k u assume a: "tasks s'' k = Some u"
  from assms(2) a have "tasks s' k = Some u \<or> (k \<notin> dom (tasks s') \<and> ExpressionID u = e)"
    unfolding extends_def by blast
  then show "tasks s k = Some u \<or> (k \<notin> dom (tasks s) \<and> ExpressionID u = e)"
  proof
    assume "tasks s' k = Some u"
    then show ?thesis using assms(1) unfolding extends_def by blast
  next
    assume b: "k \<notin> dom (tasks s') \<and> ExpressionID u = e"
    have "dom (tasks s) \<subseteq> dom (tasks s')" using assms(1) unfolding extends_def by blast
    with b show ?thesis by blast
  qed
qed (use assms in \<open>simp_all add: extends_def\<close>)

lemma createTask_extends:
  assumes c: "createTask e a1 a2 operation s = (tid, s')" and k: "keysNamed s"
  shows "extends e s s'"
proof -
  note f = createTask_frame[OF c]
  from createTask_task[OF c] obtain t where t: "tasks s' tid = Some t" "ExpressionID t = e" by blast
  have fresh: "tid \<notin> dom (tasks s)" using keysNamed_fresh[OF k] f(1) by simp
  show ?thesis unfolding extends_def
  proof (intro conjI allI impI)
    fix k u assume "tasks s k = Some u"
    then show "tasks s' k = Some u" using f(7) fresh by (metis domI)
  next
    fix k u assume a: "tasks s' k = Some u"
    show "tasks s k = Some u \<or> (k \<notin> dom (tasks s) \<and> ExpressionID u = e)"
    proof (cases "k = tid")
      case True
      then show ?thesis using a t fresh by simp
    next
      case False
      then show ?thesis using a f(7) by simp
    qed
  qed (simp_all add: f)
qed

lemma createTasks_loop_wellFormed:
  "createTasks_loop e toks stack s = (r, s') \<Longrightarrow> wellFormed s \<Longrightarrow> e \<in> dom (expressions s)
     \<Longrightarrow> wellFormed s' \<and> extends e s s'"
proof (induction toks arbitrary: stack s)
  case Nil
  then show ?case by (simp add: extends_refl)
next
  case (Cons token rest)
  show ?case
  proof (cases "isOperator token")
    case False
    with Cons.prems(1) have "createTasks_loop e rest (stack @ [token]) s = (r, s')" by simp
    from Cons.IH[OF this Cons.prems(2,3)] show ?thesis .
  next
    case True
    show ?thesis
    proof (cases "length stack < 2")
      case True
      with \<open>isOperator token\<close> Cons.prems show ?thesis by (simp add: extends_refl)
    next
      case False
      obtain tid s1 where c: "createTask e (stack ! (length stack - 2)) (stack ! (length stack - 1)) token s = (tid, s1)"
        by (metis surj_pair)
      with False \<open>isOperator token\<close> Cons.prems(1)
      have l: "createTasks_loop e rest (take (length stack - 2) stack @ [tid]) s1 = (r, s')"
        by (simp add: Let_def)
      have w1: "wellFormed s1" by (rule createTask_wellFormed[OF c Cons.prems(2,3)])
      have x1: "extends e s s1"
        using createTask_extends[OF c] Cons.prems(2) by (simp add: wellFormed_def)
      have "e \<in> dom (expressions s1)" using x1 Cons.prems(3) by (simp add: extends_def)
      from Cons.IH[OF l w1 this] x1 show ?thesis using extends_trans by blast
    qed
  qed
qed

lemma readyCandidates_ready [simp]:
  "readyCandidates e keys (s\<lparr> readyTasks := R \<rparr>) = readyCandidates e keys s"
  by (simp add: readyCandidates_def)

lemma readyCandidates_Nil [simp]: "readyCandidates e [] s = {}"
  by (simp add: readyCandidates_def)

lemma readyCandidates_Cons:
  "readyCandidates e (k # keys) s =
     (case tasks s k of
        None \<Rightarrow> readyCandidates e keys s
      | Some t \<Rightarrow>
          if ExpressionID t = e \<and> Arg1 t \<notin> dom (tasks s) \<and> Arg2 t \<notin> dom (tasks s)
          then insert k (readyCandidates e keys s) else readyCandidates e keys s)"
  unfolding readyCandidates_def by (cases "tasks s k") auto

lemma markReady_eq:
  "markReady e keys s = s\<lparr> readyTasks := readyTasks s \<union> readyCandidates e keys s \<rparr>"
proof (induction keys arbitrary: s)
  case Nil
  then show ?case by simp
next
  case (Cons k keys)
  show ?case
  proof (cases "tasks s k")
    case None
    then show ?thesis using Cons.IH[of s] by (simp add: readyCandidates_Cons)
  next
    case (Some t)
    then show ?thesis
      using Cons.IH[of s] Cons.IH[of "s\<lparr>readyTasks := insert k (readyTasks s)\<rparr>"]
      by (simp add: readyCandidates_Cons)
  qed
qed

lemma substituteResult_idem:
  "substituteResult i x (substituteResult i x t) = substituteResult i x t"
  by (simp add: substituteResult_def)

lemma substituteResult_fields [simp]:
  "ExpressionID (substituteResult i x t) = ExpressionID t"
  "Dependencies (substituteResult i x t) = Dependencies t"
  "Result (substituteResult i x t) = Result t"
  "Status (substituteResult i x t) = Status t"
  "ID (substituteResult i x t) = ID t"
  by (simp_all add: substituteResult_def)

lemma substituted_step:
  assumes "m k = Some t"
  shows "substituted i x D (m(k \<mapsto> substituteResult i x t)) = substituted i x (insert k D) m"
  using assms by (auto simp: substituted_def fun_eq_iff substituteResult_idem)

lemma nowReady_substituted:
  assumes "tasks s k = Some t"
  shows "nowReady D (s\<lparr> tasks := (tasks s)(k \<mapsto> substituteResult i x t), readyTasks := R \<rparr>)
           = nowReady D s"
  using assms by (auto simp: nowReady_def)

lemma nowReady_insert:
  assumes "tasks s k = Some t"
  shows "nowReady (insert k D) s =
           (if set (Dependencies t) \<subseteq> completedTasks s then insert k (nowReady D s) else nowReady D s)"
  using assms by (auto simp: nowReady_def)

lemma updateDependencies_loop_step:
  assumes "tasks s k = Some t"
  shows "updateDependencies_loop formatFloat i v (k # rest) s =
     updateDependencies_loop formatFloat i v rest
       (s\<lparr> tasks := (tasks s)(k \<mapsto> substituteResult i (formatFloat v) t),
          readyTasks := (if set (Dependencies t) \<subseteq> completedTasks s
                         then insert k (readyTasks s) else readyTasks s) \<rparr>)"
  using assms by (auto simp: Let_def substituteResult_def list_all_iff subset_iff)

lemma updateDependencies_loop_eq:
  "set deps \<subseteq> dom (tasks s) \<Longrightarrow>
   updateDependencies_loop formatFloat i v deps s =
     Some (s\<lparr> tasks := substituted i (formatFloat v) (set deps) (tasks s),
              readyTasks := readyTasks s \<union> nowReady (set deps) s \<rparr>)"
proof (induction deps arbitrary: s)
  case Nil
  have "substituted i (formatFloat v) {} (tasks s) = tasks s"
    by (simp add: substituted_def fun_eq_iff)
  then show ?case by (simp add: nowReady_def)
next
  case (Cons k rest)
  then obtain t where t: "tasks s k = Some t" by auto
  let ?s1 = "s\<lparr> tasks := (tasks s)(k \<mapsto> substituteResult i (formatFloat v) t),
          readyTasks := (if set (Dependencies t) \<subseteq> completedTasks s
                         then insert k (readyTasks s) else readyTasks s) \<rparr>"
  have "set rest \<subseteq> dom (tasks ?s1)" using Cons.prems by auto
  from Cons.IH[OF this]
  have ih: "updateDependencies_loop formatFloat i v rest ?s1 =
     Some (?s1\<lparr> tasks := substituted i (formatFloat v) (set rest) (tasks ?s1),
              readyTasks := readyTasks ?s1 \<union> nowReady (set rest) ?s1 \<rparr>)" .
  have a: "substituted i (formatFloat v) (set rest) (tasks ?s1)
      = substituted i (formatFloat v) (set (k # rest)) (tasks s)"
    using substituted_step[where m="tasks s" and k=k and t=t and i=i and x="formatFloat v" and D="set rest"] t
    by simp
  have b: "readyTasks ?s1 \<union> nowReady (set rest) ?s1 = readyTasks s \<union> nowReady (set (k # rest)) s"
    unfolding nowReady_substituted[OF t] list.set nowReady_insert[OF t] by auto
  have c: "\<And>A B. ?s1\<lparr> tasks := A, readyTasks := B \<rparr> = s\<lparr> tasks := A, readyTasks := B \<rparr>"
    by simp
  show ?case
    unfolding updateDependencies_loop_step[OF t] ih a b c ..
qed

lemma updateDependencies_loop_panics:
  "\<not> set deps \<subseteq> dom (tasks s) \<Longrightarrow> updateDependencies_loop formatFloat i v deps s = None"
proof (induction deps arbitrary: s)
  case Nil
  then show ?case by simp
next
  case (Cons k rest)
  show ?case
  proof (cases "tasks s k")
    case None
    then show ?thesis by simp
  next
    case (Some t)
    with Cons.prems have "\<not> set rest \<subseteq> dom (tasks s)" by auto
    then have "\<And>T R. \<not> set rest \<subseteq> dom (tasks (s\<lparr> tasks := (tasks s)(k \<mapsto> T), readyTasks := R \<rparr>))"
      using Some by auto
    from Cons.IH[OF this] show ?thesis
      unfolding updateDependencies_loop_step[OF Some] .
  qed
qed

lemma SubmitExpression_cases:
  assumes "SubmitExpression parseFloat id' e keys s = (r, s')"
  obtains (rejected) err where "r = Inl err"
      and "s' = withExpression id' (stripSpaces e) Failed s"
  | (failed) err tokens postfix res s2 where "r = Inl err"
      and "tokenize (stripSpaces e) = Inr tokens"
      and "shuntingYard parseFloat tokens = Inr postfix"
      and "createTasks_loop id' postfix [] (withExpression id' (stripSpaces e) Pending s) = (res, s2)"
      and "s' = withExpression id' (stripSpaces e) Failed s2"
  | (built) tokens postfix top s2 where "r = Inr id'"
      and "tokenize (stripSpaces e) = Inr tokens"
      and "shuntingYard parseFloat tokens = Inr postfix"
      and "createTasks_loop id' postfix [] (withExpression id' (stripSpaces e) Pending s) = (Inr [top], s2)"
      and "s' = withExpression id' (stripSpaces e) InProcess (markReady id' keys s2)"
proof -
  let ?text = "stripSpaces e"
  let ?s1 = "withExpression id' ?text Pending s"
  have s1: "?s1 = s\<lparr> expressions := (expressions s)(id' \<mapsto>
      \<lparr> ExpressionData.ID = id', Expression = filter (\<lambda>c. c \<noteq> CHR '' '') e,
        ExpressionData.Status = Pending, ExpressionData.Result = None \<rparr>) \<rparr>"
    by (simp add: withExpression_def submitted_def stripSpaces_def)
  have w: "\<And>st x. x\<lparr> expressions := (expressions x)(id' \<mapsto>
      \<lparr> ExpressionData.ID = id', Expression = filter (\<lambda>c. c \<noteq> CHR '' '') e,
        ExpressionData.Status = Pending, ExpressionData.Result = None \<rparr>
        \<lparr> ExpressionData.Status := st \<rparr>) \<rparr> = withExpression id' ?text st x"
    by (simp add: withExpression_def submitted_def stripSpaces_def)
  have ww: "\<And>st. withExpression id' ?text st ?s1 = withExpression id' ?text st s"
    by (simp add: withExpression_def)
  obtain pr s2 where p: "parseExpression parseFloat id' (filter (\<lambda>c. c \<noteq> CHR '' '') e) keys ?s1 = (pr, s2)"
    by (metis surj_pair)
  have sub: "(r, s') = (case pr of Some err \<Rightarrow> (Inl err, withExpression id' ?text Failed s2)
                | None \<Rightarrow> (Inr id', withExpression id' ?text InProcess s2))"
    using assms p unfolding SubmitExpression_def Let_def s1[symmetric] w
    by (simp split: option.splits)
  show ?thesis
  proof (cases "tokenize (stripSpaces e)")
    case (Inl err)
    with p have "pr = Some err" "s2 = ?s1" by (simp_all add: parseExpression_def stripSpaces_def)
    with sub ww show ?thesis using rejected by simp
  next
    case (Inr tokens)
    note tk = this
    show ?thesis
    proof (cases "shuntingYard parseFloat tokens")
      case (Inl err)
      with p tk have "pr = Some err" "s2 = ?s1" by (simp_all add: parseExpression_def stripSpaces_def)
      with sub ww show ?thesis using rejected by simp
    next
      case (Inr postfix)
      obtain res s3 where l: "createTasks_loop id' postfix [] ?s1 = (res, s3)"
        by (metis surj_pair)
      from p tk Inr have c: "createTasksFromPostfix id' postfix keys ?s1 = (pr, s2)"
        by (simp add: parseExpression_def stripSpaces_def)
      show ?thesis
      proof (cases res)
        case (Inl err)
        with c l have "pr = Some err" "s2 = s3" by (simp_all add: createTasksFromPostfix_def)
        with sub show ?thesis using failed[OF _ tk Inr l] by simp
      next
        case (Inr stack)
        show ?thesis
        proof (cases "length stack = 1")
          case False
          with c l Inr have "pr = Some TooManyValues" "s2 = s3"
            by (simp_all add: createTasksFromPostfix_def)
          with sub show ?thesis using failed[OF _ tk \<open>shuntingYard parseFloat tokens = Inr postfix\<close> l] by simp
        next
          case True
          then obtain top where top: "stack = [top]"
            by (metis One_nat_def length_0_conv length_Suc_conv)
          with c l Inr have "pr = None" "s2 = markReady id' keys s3"
            by (simp_all add: createTasksFromPostfix_def)
          with sub show ?thesis
            using built[OF _ tk \<open>shuntingYard parseFloat tokens = Inr postfix\<close>, of top s3] l Inr top by simp
        qed
      qed
    qed
  qed
qed

lemma wellFormed_expressions:
  assumes "wellFormed s" "dom (expressions s) \<subseteq> dom X"
  shows "wellFormed (s\<lparr> expressions := X \<rparr>)"
  using assms
  unfolding wellFormed_def keysNamed_def expressionsKnown_def dependenciesKnown_def dependentsKnown_def
  by (simp add: subset_iff)

lemma wellFormed_withExpression:
  "wellFormed s \<Longrightarrow> wellFormed (withExpression id' text st s)"
  unfolding withExpression_def by (rule wellFormed_expressions) auto

lemma wellFormed_ready:
  assumes "wellFormed s" "R \<subseteq> dom (tasks s)"
  shows "wellFormed (s\<lparr> readyTasks := R \<rparr>)"
  using assms
  unfolding wellFormed_def keysNamed_def expressionsKnown_def dependenciesKnown_def dependentsKnown_def
  by simp

lemma readyCandidates_tasks: "readyCandidates e keys s \<subseteq> dom (tasks s)"
  by (auto simp: readyCandidates_def)

lemma markReady_wellFormed: "wellFormed s \<Longrightarrow> wellFormed (markReady e keys s)"
  unfolding markReady_eq
  by (rule wellFormed_ready) (use readyCandidates_tasks[of e keys s] in \<open>auto simp: wellFormed_def\<close>)

lemma SubmitExpression_wellFormed:
  assumes "SubmitExpression parseFloat id' e keys s = (r, s')" "wellFormed s"
  shows "wellFormed s'"
proof -
  have w1: "wellFormed (withExpression id' (stripSpaces e) Pending s)"
    using assms(2) by (rule wellFormed_withExpression)
  have d1: "id' \<in> dom (expressions (withExpression id' (stripSpaces e) Pending s))"
    by (simp add: withExpression_def)
  from assms(1) show ?thesis
  proof (cases rule: SubmitExpression_cases)
    case (rejected err)
    then show ?thesis using assms(2) by (simp add: wellFormed_withExpression)
  next
    case (failed err tokens postfix res s2)
    from createTasks_loop_wellFormed[OF failed(4) w1 d1] failed(5) show ?thesis
      by (simp add: wellFormed_withExpression)
  next
    case (built tokens postfix top s2)
    from createTasks_loop_wellFormed[OF built(4) w1 d1] built(5) show ?thesis
      by (simp add: wellFormed_withExpression markReady_wellFormed)
  qed
qed

lemma GetTask_cases:
  assumes "enumerates keys (readyTasks s)" "readyTasks s \<subseteq> dom (tasks s)"
  obtains (none) "readyTasks s = {}" and "GetTask keys s = Some (None, s)"
  | (pulled) k t where "k \<in> readyTasks s" and "tasks s k = Some t"
      and "GetTask keys s = Some (Some (t\<lparr> Status := ''processing'' \<rparr>),
             s\<lparr> tasks := (tasks s)(k \<mapsto> t\<lparr> Status := ''processing'' \<rparr>),
                readyTasks := readyTasks s - {k} \<rparr>)"
proof (cases keys)
  case Nil
  with assms(1) have "readyTasks s = {}" by (simp add: enumerates_def)
  moreover have "GetTask keys s = Some (None, s)" using Nil by (simp add: GetTask_def)
  ultimately show ?thesis by (rule none)
next
  case (Cons k rest)
  with assms(1) have k: "k \<in> readyTasks s" by (auto simp: enumerates_def)
  with assms(2) obtain t where t: "tasks s k = Some t" by blast
  have "GetTask keys s = Some (Some (t\<lparr> Status := ''processing'' \<rparr>),
             s\<lparr> tasks := (tasks s)(k \<mapsto> t\<lparr> Status := ''processing'' \<rparr>),
                readyTasks := readyTasks s - {k} \<rparr>)"
    using Cons t by (simp add: GetTask_def)
  with k t show ?thesis by (rule pulled)
qed

text \<open>
  A change of the tasks that keeps the keys, the owning expressions and the dependency
  lists, and leaves every dependency completed or named by an operand, keeps the
  structure.
\<close>

lemma wellFormed_update:
  assumes w: "wellFormed s"
    and d: "dom T = dom (tasks s)"
    and c: "\<And>k u'. T k = Some u' \<Longrightarrow> \<exists>u. tasks s k = Some u
          \<and> ExpressionID u' = ExpressionID u \<and> Dependencies u' = Dependencies u
          \<and> (\<forall>dd \<in> set (Dependencies u). dd \<in> C \<or> dd = Arg1 u' \<or> dd = Arg2 u')"
    and C: "C \<subseteq> dom (tasks s)" and R: "R \<subseteq> dom (tasks s)"
  shows "wellFormed (s\<lparr> tasks := T, completedTasks := C, readyTasks := R \<rparr>)"
proof -
  let ?s' = "s\<lparr> tasks := T, completedTasks := C, readyTasks := R \<rparr>"
  from w have "keysNamed ?s'" unfolding wellFormed_def keysNamed_def by (simp add: d)
  moreover have "expressionsKnown ?s'" unfolding expressionsKnown_def
  proof (intro allI impI)
    fix k u' assume "tasks ?s' k = Some u'"
    then have "T k = Some u'" by simp
    from c[OF this] obtain u where "tasks s k = Some u" "ExpressionID u' = ExpressionID u" by blast
    with w show "ExpressionID u' \<in> dom (expressions ?s')"
      unfolding wellFormed_def expressionsKnown_def by auto
  qed
  moreover have "dependenciesKnown ?s'" unfolding dependenciesKnown_def
  proof (intro allI impI ballI)
    fix k u' dd assume a: "tasks ?s' k = Some u'" "dd \<in> set (Dependencies u')"
    then have "T k = Some u'" by simp
    from c[OF this] obtain u where u: "tasks s k = Some u" "Dependencies u' = Dependencies u"
      "\<forall>dd \<in> set (Dependencies u). dd \<in> C \<or> dd = Arg1 u' \<or> dd = Arg2 u'" by blast
    have "dd \<in> dom (tasks s)"
      using w u(1,2) a(2) unfolding wellFormed_def dependenciesKnown_def by auto
    with u(2,3) a(2) show "dd \<in> dom (tasks ?s') \<and> (dd \<in> completedTasks ?s' \<or> dd = Arg1 u' \<or> dd = Arg2 u')"
      by (simp add: d)
  qed
  moreover have "dependentsKnown ?s'" unfolding dependentsKnown_def
  proof (intro allI ballI)
    fix dd k assume "k \<in> set (lookupList (reverseDependencies ?s') dd)"
    then have "k \<in> set (lookupList (reverseDependencies s) dd)" by simp
    with w obtain u where u: "tasks s k = Some u" "dd \<in> set (Dependencies u)"
      unfolding wellFormed_def dependentsKnown_def by blast
    then have "k \<in> dom T" using d by auto
    then obtain u' where u': "T k = Some u'" by blast
    from c[OF this] u show "\<exists>u'. tasks ?s' k = Some u' \<and> dd \<in> set (Dependencies u')"
      using u' by auto
  qed
  moreover have "readyTasks ?s' \<subseteq> dom (tasks ?s')" "completedTasks ?s' \<subseteq> dom (tasks ?s')"
    using C R by (simp_all add: d)
  ultimately show ?thesis unfolding wellFormed_def by blast
qed

lemma wellFormed_processing:
  assumes w: "wellFormed s" and t: "tasks s k = Some t"
  shows "wellFormed (s\<lparr> tasks := (tasks s)(k \<mapsto> t\<lparr> Status := ''processing'' \<rparr>),
                readyTasks := readyTasks s - {k} \<rparr>)"
proof -
  have "wellFormed (s\<lparr> tasks := (tasks s)(k \<mapsto> t\<lparr> Status := ''processing'' \<rparr>),
      completedTasks := completedTasks s, readyTasks := readyTasks s - {k} \<rparr>)"
  proof (rule wellFormed_update[OF w])
    show "dom ((tasks s)(k \<mapsto> t\<lparr> Status := ''processing'' \<rparr>)) = dom (tasks s)" using t by auto
    fix j u' assume "((tasks s)(k \<mapsto> t\<lparr> Status := ''processing'' \<rparr>)) j = Some u'"
    then consider "j = k" "u' = t\<lparr> Status := ''processing'' \<rparr>" | "j \<noteq> k" "tasks s j = Some u'"
      by (auto split: if_splits)
    then show "\<exists>u. tasks s j = Some u \<and> ExpressionID u' = ExpressionID u
        \<and> Dependencies u' = Dependencies u
        \<and> (\<forall>dd \<in> set (Dependencies u). dd \<in> completedTasks s \<or> dd = Arg1 u' \<or> dd = Arg2 u')"
    proof cases
      case 1
      then show ?thesis using t w unfolding wellFormed_def dependenciesKnown_def
        by (intro exI[of _ t]) auto
    next
      case 2
      then show ?thesis using w unfolding wellFormed_def dependenciesKnown_def
        by (intro exI[of _ u']) auto
    qed
  qed (use w in \<open>auto simp: wellFormed_def\<close>)
  then show ?thesis by simp
qed

lemma wellFormed_withResult:
  assumes w: "wellFormed s" and t: "tasks s i = Some t"
  shows "wellFormed (withResult i v t s)"
  unfolding withResult_def
proof -
  have "wellFormed (s\<lparr> tasks := (tasks s)(i \<mapsto> t\<lparr> Result := Some v \<rparr>),
      completedTasks := insert i (completedTasks s), readyTasks := readyTasks s \<rparr>)"
  proof (rule wellFormed_update[OF w])
    show "dom ((tasks s)(i \<mapsto> t\<lparr> Result := Some v \<rparr>)) = dom (tasks s)" using t by auto
    fix j u' assume "((tasks s)(i \<mapsto> t\<lparr> Result := Some v \<rparr>)) j = Some u'"
    then consider "j = i" "u' = t\<lparr> Result := Some v \<rparr>" | "j \<noteq> i" "tasks s j = Some u'"
      by (auto split: if_splits)
    then show "\<exists>u. tasks s j = Some u \<and> ExpressionID u' = ExpressionID u
        \<and> Dependencies u' = Dependencies u
        \<and> (\<forall>dd \<in> set (Dependencies u). dd \<in> insert i (completedTasks s) \<or> dd = Arg1 u' \<or> dd = Arg2 u')"
    proof cases
      case 1
      then show ?thesis using t w unfolding wellFormed_def dependenciesKnown_def
        by (intro exI[of _ t]) auto
    next
      case 2
      then show ?thesis using w unfolding wellFormed_def dependenciesKnown_def
        by (intro exI[of _ u']) auto
    qed
  qed (use w t in \<open>auto simp: wellFormed_def\<close>)
  then show "wellFormed (s\<lparr> tasks := (tasks s)(i \<mapsto> t\<lparr> Result := Some v \<rparr>),
      completedTasks := insert i (completedTasks s) \<rparr>)" by simp
qed

lemma nowReady_subset: "nowReady D s \<subseteq> D"
  by (auto simp: nowReady_def)

lemma wellFormed_substituted:
  assumes w: "wellFormed s" and i: "i \<in> completedTasks s" and D: "D \<subseteq> dom (tasks s)"
  shows "wellFormed (s\<lparr> tasks := substituted i x D (tasks s),
                       readyTasks := readyTasks s \<union> nowReady D s \<rparr>)"
proof -
  have "wellFormed (s\<lparr> tasks := substituted i x D (tasks s),
      completedTasks := completedTasks s, readyTasks := readyTasks s \<union> nowReady D s \<rparr>)"
  proof (rule wellFormed_update[OF w])
    show "dom (substituted i x D (tasks s)) = dom (tasks s)"
      by (auto simp: substituted_def split: if_splits)
    fix j u' assume a: "substituted i x D (tasks s) j = Some u'"
    then obtain u where u: "tasks s j = Some u" "u' = u \<or> u' = substituteResult i x u"
      by (auto simp: substituted_def split: if_splits)
    have "\<forall>dd \<in> set (Dependencies u). dd \<in> completedTasks s \<or> dd = Arg1 u \<or> dd = Arg2 u"
      using w u(1) unfolding wellFormed_def dependenciesKnown_def by blast
    then have "\<forall>dd \<in> set (Dependencies u). dd \<in> completedTasks s \<or> dd = Arg1 u' \<or> dd = Arg2 u'"
    proof (intro ballI)
      fix dd assume h: "\<forall>dd \<in> set (Dependencies u). dd \<in> completedTasks s \<or> dd = Arg1 u \<or> dd = Arg2 u"
        and m: "dd \<in> set (Dependencies u)"
      show "dd \<in> completedTasks s \<or> dd = Arg1 u' \<or> dd = Arg2 u'"
      proof (cases "dd \<in> completedTasks s")
        case True
        then show ?thesis by simp
      next
        case False
        with i have "dd \<noteq> i" by auto
        moreover from h m False have "dd = Arg1 u \<or> dd = Arg2 u" by blast
        ultimately show ?thesis using u(2) by (auto simp: substituteResult_def)
      qed
    qed
    with u show "\<exists>u. tasks s j = Some u \<and> ExpressionID u' = ExpressionID u
        \<and> Dependencies u' = Dependencies u
        \<and> (\<forall>dd \<in> set (Dependencies u). dd \<in> completedTasks s \<or> dd = Arg1 u' \<or> dd = Arg2 u')"
      by (intro exI[of _ u]) auto
  qed (use w D nowReady_subset[of D s] in \<open>auto simp: wellFormed_def\<close>)
  then show ?thesis by simp
qed

lemma dependents_are_tasks:
  "wellFormed s \<Longrightarrow> set (lookupList (reverseDependencies s) d) \<subseteq> dom (tasks s)"
  unfolding wellFormed_def dependentsKnown_def by blast

text \<open>The two ways \<open>updateExpressionStatus\<close> ends when the expression is recorded.\<close>

lemma updateExpressionStatus_cases:
  assumes "expressions s e = Some x"
  obtains (unchanged) "updateExpressionStatus e keys s = Some s"
      and "\<not> (fst (expressionStatus_loop e keys s (True, None))
               \<and> snd (expressionStatus_loop e keys s (True, None)) \<noteq> None)"
  | (completed) final where "expressionStatus_loop e keys s (True, None) = (True, Some final)"
      and "updateExpressionStatus e keys s =
             Some (s\<lparr> expressions := (expressions s)(e \<mapsto>
               x\<lparr> ExpressionData.Status := Completed, ExpressionData.Result := Some final \<rparr>) \<rparr>)"
proof (cases "expressionStatus_loop e keys s (True, None)")
  case (Pair allCompleted finalResult)
  show ?thesis
  proof (cases "allCompleted \<and> finalResult \<noteq> None")
    case True
    then obtain final where "finalResult = Some final" by auto
    with Pair True assms show ?thesis
      by (intro completed[of final]) (simp_all add: updateExpressionStatus_def)
  next
    case False
    with Pair show ?thesis
      by (intro unchanged) (auto simp: updateExpressionStatus_def)
  qed
qed

text \<open>What \<open>SetTaskResult\<close> does for a task of a well-formed state.\<close>

lemma SetTaskResult_recorded:
  assumes w: "wellFormed s" and t: "tasks s i = Some t"
  obtains s2 where
      "updateExpressionStatus (ExpressionID t) keys (withResult i v t s) = Some s2"
    and "SetTaskResult formatFloat i v keys s =
      Some (None, s2\<lparr> tasks := substituted i (formatFloat v)
                         (set (lookupList (reverseDependencies s) i)) (tasks s2),
                     readyTasks := readyTasks s2
                         \<union> nowReady (set (lookupList (reverseDependencies s) i)) s2 \<rparr>)"
proof -
  let ?s1 = "withResult i v t s"
  have "ExpressionID t \<in> dom (expressions ?s1)"
    using w t unfolding wellFormed_def expressionsKnown_def withResult_def by auto
  then obtain x where x: "expressions ?s1 (ExpressionID t) = Some x" by blast
  from x obtain s2 where s2: "updateExpressionStatus (ExpressionID t) keys ?s1 = Some s2"
    and same: "tasks s2 = tasks ?s1" "reverseDependencies s2 = reverseDependencies ?s1"
    by (cases rule: updateExpressionStatus_cases[of ?s1 "ExpressionID t" x keys]) auto
  have r: "reverseDependencies s2 = reverseDependencies s" using same(2) by (simp add: withResult_def)
  have "set (lookupList (reverseDependencies s) i) \<subseteq> dom (tasks s2)"
    using dependents_are_tasks[OF w, of i] t unfolding same(1) withResult_def by auto
  from updateDependencies_loop_eq[OF this, of formatFloat i v]
  have "updateDependencies formatFloat i v s2 =
      Some (s2\<lparr> tasks := substituted i (formatFloat v)
                         (set (lookupList (reverseDependencies s) i)) (tasks s2),
                     readyTasks := readyTasks s2
                         \<union> nowReady (set (lookupList (reverseDependencies s) i)) s2 \<rparr>)"
    unfolding updateDependencies_def r .
  with s2 t have "SetTaskResult formatFloat i v keys s =
      Some (None, s2\<lparr> tasks := substituted i (formatFloat v)
                         (set (lookupList (reverseDependencies s) i)) (tasks s2),
                     readyTasks := readyTasks s2
                         \<union> nowReady (set (lookupList (reverseDependencies s) i)) s2 \<rparr>)"
    unfolding SetTaskResult_def Let_def withResult_def[symmetric] by simp
  with s2 show ?thesis by (rule that)
qed

lemma updateExpressionStatus_wellFormed:
  assumes "updateExpressionStatus e keys s = Some s2" "wellFormed s"
  shows "wellFormed s2"
proof (cases "expressions s e")
  case None
  with assms show ?thesis
    by (auto simp: updateExpressionStatus_def split: prod.splits if_splits)
next
  case (Some x)
  then show ?thesis
  proof (cases rule: updateExpressionStatus_cases[where keys=keys])
    case unchanged
    with assms show ?thesis by simp
  next
    case (completed final)
    with assms(1) have "s2 = s\<lparr> expressions := (expressions s)(e \<mapsto>
               x\<lparr> ExpressionData.Status := Completed, ExpressionData.Result := Some final \<rparr>) \<rparr>"
      by simp
    moreover have "dom (expressions s) \<subseteq> dom ((expressions s)(e \<mapsto>
               x\<lparr> ExpressionData.Status := Completed, ExpressionData.Result := Some final \<rparr>))"
      by auto
    ultimately show ?thesis using wellFormed_expressions[OF assms(2)] by blast
  qed
qed

lemma updateExpressionStatus_frame:
  assumes "updateExpressionStatus e keys s = Some s2"
  shows "tasks s2 = tasks s" and "completedTasks s2 = completedTasks s"
    and "readyTasks s2 = readyTasks s" and "reverseDependencies s2 = reverseDependencies s"
    and "taskIDCounter s2 = taskIDCounter s"
  using assms
  by (auto simp: updateExpressionStatus_def split: prod.splits if_splits option.splits)

lemma SetTaskResult_wellFormed:
  assumes w: "wellFormed s"
  shows "\<exists>r s'. SetTaskResult formatFloat i v keys s = Some (r, s') \<and> wellFormed s'"
proof (cases "tasks s i")
  case None
  then show ?thesis using w by (simp add: SetTaskResult_def)
next
  case (Some t)
  from SetTaskResult_recorded[OF w Some, of keys v formatFloat] obtain s2 where
    u: "updateExpressionStatus (ExpressionID t) keys (withResult i v t s) = Some s2"
    and r: "SetTaskResult formatFloat i v keys s =
      Some (None, s2\<lparr> tasks := substituted i (formatFloat v)
                         (set (lookupList (reverseDependencies s) i)) (tasks s2),
                     readyTasks := readyTasks s2
                         \<union> nowReady (set (lookupList (reverseDependencies s) i)) s2 \<rparr>)"
    by blast
  have w2: "wellFormed s2"
    using updateExpressionStatus_wellFormed[OF u wellFormed_withResult[OF w Some]] .
  note f = updateExpressionStatus_frame[OF u]
  have "i \<in> completedTasks s2" unfolding f by (simp add: withResult_def)
  moreover have "set (lookupList (reverseDependencies s) i) \<subseteq> dom (tasks s2)"
    using dependents_are_tasks[OF w, of i] Some unfolding f withResult_def by auto
  ultimately show ?thesis using wellFormed_substituted[OF w2] r by blast
qed

lemma NewService_wellFormed: "wellFormed (NewService times')"
  by (simp add: wellFormed_def keysNamed_def expressionsKnown_def dependenciesKnown_def
      dependentsKnown_def NewService_def lookupList_def)

lemma step_wellFormed:
  assumes "wellFormed s" "admissible parseFloat operation s"
  shows "\<exists>r s'. step parseFloat formatFloat operation s = Some (r, s') \<and> wellFormed s'"
proof (cases operation)
  case (Submit id' e keys)
  obtain r s' where r: "SubmitExpression parseFloat id' e keys s = (r, s')" by (metis surj_pair)
  from SubmitExpression_wellFormed[OF r assms(1)] r Submit show ?thesis by simp
next
  case (Pull keys)
  with assms have e: "enumerates keys (readyTasks s)" and r: "readyTasks s \<subseteq> dom (tasks s)"
    by (simp_all add: wellFormed_def)
  from e r show ?thesis
  proof (cases rule: GetTask_cases)
    case none
    then show ?thesis using Pull assms(1) by simp
  next
    case (pulled k t)
    then show ?thesis using Pull wellFormed_processing[OF assms(1) pulled(2)] by simp
  qed
next
  case (Record id' v keys)
  from SetTaskResult_wellFormed[OF assms(1), of formatFloat id' v keys] Record
  show ?thesis by auto
qed

lemma run_wellFormed:
  "wellFormed s \<Longrightarrow> admissibleRun parseFloat formatFloat operations s
     \<Longrightarrow> \<exists>rs s'. run parseFloat formatFloat operations s = Some (rs, s') \<and> wellFormed s'"
proof (induction operations arbitrary: s)
  case Nil
  then show ?case by simp
next
  case (Cons operation rest)
  from Cons.prems have a: "admissible parseFloat operation s" by simp
  from step_wellFormed[OF Cons.prems(1) a, of formatFloat] obtain r s1 where
    s: "step parseFloat formatFloat operation s = Some (r, s1)" and w: "wellFormed s1" by blast
  with Cons.prems have "admissibleRun parseFloat formatFloat rest s1" by simp
  from Cons.IH[OF w this] s show ?case by auto
qed

lemma reaches_wellFormed:
  "reaches parseFloat formatFloat times' operations responses s \<Longrightarrow> wellFormed s"
  unfolding reaches_def
  using run_wellFormed[OF NewService_wellFormed, of parseFloat formatFloat operations times']
  by auto

text \<open>An admissible sequence of operations runs to its end: no operation panics.\<close>

lemma admissibleRun_reaches:
  "admissibleRun parseFloat formatFloat operations (NewService times')
     \<Longrightarrow> \<exists>responses s. reaches parseFloat formatFloat times' operations responses s"
  unfolding reaches_def
  using run_wellFormed[OF NewService_wellFormed, of parseFloat formatFloat operations times']
  by auto

text \<open>The state that \<open>SetTaskResult\<close> leaves, field by field, for a task of a well-formed state.\<close>

lemma substituted_Some:
  "substituted i x D m k = Some u'
     \<Longrightarrow> \<exists>u. m k = Some u \<and> u' = (if k \<in> D then substituteResult i x u else u)"
  by (cases "k \<in> D") (auto simp: substituted_def)

lemma substituted_dom: "dom (substituted i x D m) = dom m"
  by (auto simp: substituted_def split: if_splits)

lemma updateExpressionStatus_expressions:
  assumes "updateExpressionStatus e keys s = Some s2"
  shows "s2 = s\<lparr> expressions := expressions s2 \<rparr>"
proof (cases "expressions s e")
  case None
  with assms have "s2 = s"
    by (cases "expressionStatus_loop e keys s (True, None)")
       (simp add: updateExpressionStatus_def split: if_splits)
  then show ?thesis by simp
next
  case (Some x)
  then show ?thesis
  proof (cases rule: updateExpressionStatus_cases[where keys=keys])
    case unchanged
    with assms have "s2 = s" by simp
    then show ?thesis by simp
  next
    case (completed final)
    with assms have "s2 = s\<lparr> expressions := (expressions s)(e \<mapsto>
               x\<lparr> ExpressionData.Status := Completed, ExpressionData.Result := Some final \<rparr>) \<rparr>"
      by simp
    then show ?thesis by simp
  qed
qed

lemma SetTaskResult_state:
  assumes w: "wellFormed s" and t: "tasks s i = Some t"
    and r: "SetTaskResult formatFloat i v keys s = Some (r, s')"
  shows "r = None"
    and "completedTasks s' = insert i (completedTasks s)"
    and "readyTasks s' = readyTasks s \<union>
           {k \<in> set (lookupList (reverseDependencies s) i).
              \<exists>u. tasks s k = Some u \<and> set (Dependencies u) \<subseteq> insert i (completedTasks s)}"
    and "reverseDependencies s' = reverseDependencies s"
    and "taskIDCounter s' = taskIDCounter s"
    and "dom (tasks s') = dom (tasks s)"
    and "\<And>k u'. tasks s' k = Some u' \<Longrightarrow> \<exists>u. tasks s k = Some u
          \<and> ID u' = ID u \<and> ExpressionID u' = ExpressionID u \<and> Dependencies u' = Dependencies u
          \<and> Result u' = (if k = i then Some v else Result u)
          \<and> Arg1 u' = (if k \<in> set (lookupList (reverseDependencies s) i) \<and> Arg1 u = i
                         then formatFloat v else Arg1 u)
          \<and> Arg2 u' = (if k \<in> set (lookupList (reverseDependencies s) i) \<and> Arg2 u = i
                         then formatFloat v else Arg2 u)"
    and "updateExpressionStatus (ExpressionID t) keys (withResult i v t s)
           = Some (withResult i v t s\<lparr> expressions := expressions s' \<rparr>)"
proof -
  let ?D = "set (lookupList (reverseDependencies s) i)"
  from SetTaskResult_recorded[OF w t, of keys v formatFloat] obtain s2 where
    u: "updateExpressionStatus (ExpressionID t) keys (withResult i v t s) = Some s2"
    and e: "SetTaskResult formatFloat i v keys s =
      Some (None, s2\<lparr> tasks := substituted i (formatFloat v) ?D (tasks s2),
                     readyTasks := readyTasks s2 \<union> nowReady ?D s2 \<rparr>)"
    by blast
  from e r have rn: "r = None"
    and s': "s' = s2\<lparr> tasks := substituted i (formatFloat v) ?D (tasks s2),
                     readyTasks := readyTasks s2 \<union> nowReady ?D s2 \<rparr>" by simp_all
  note f = updateExpressionStatus_frame[OF u]
  have t2: "tasks s2 = (tasks s)(i \<mapsto> t\<lparr> Result := Some v \<rparr>)"
    and c2: "completedTasks s2 = insert i (completedTasks s)"
    and r2: "readyTasks s2 = readyTasks s"
    and d2: "reverseDependencies s2 = reverseDependencies s"
    and n2: "taskIDCounter s2 = taskIDCounter s"
    unfolding f by (simp_all add: withResult_def)
  have ts: "tasks s' = substituted i (formatFloat v) ?D ((tasks s)(i \<mapsto> t\<lparr> Result := Some v \<rparr>))"
    by (simp add: s' t2)
  show "r = None" by (rule rn)
  show "completedTasks s' = insert i (completedTasks s)" by (simp add: s' c2)
  show "reverseDependencies s' = reverseDependencies s" by (simp add: s' d2)
  show "taskIDCounter s' = taskIDCounter s" by (simp add: s' n2)
  show "dom (tasks s') = dom (tasks s)"
    unfolding ts substituted_dom using t by auto
  have "\<And>k. (\<exists>u. tasks s2 k = Some u \<and> set (Dependencies u) \<subseteq> completedTasks s2)
      \<longleftrightarrow> (\<exists>u. tasks s k = Some u \<and> set (Dependencies u) \<subseteq> insert i (completedTasks s))"
    unfolding t2 c2 using t by (case_tac "k = i") simp_all
  then have "nowReady ?D s2 = {k \<in> ?D. \<exists>u. tasks s k = Some u
      \<and> set (Dependencies u) \<subseteq> insert i (completedTasks s)}"
    unfolding nowReady_def by simp
  then show "readyTasks s' = readyTasks s \<union>
           {k \<in> ?D. \<exists>u. tasks s k = Some u \<and> set (Dependencies u) \<subseteq> insert i (completedTasks s)}"
    by (simp add: s' r2)
  show "\<exists>u. tasks s k = Some u
          \<and> ID u' = ID u \<and> ExpressionID u' = ExpressionID u \<and> Dependencies u' = Dependencies u
          \<and> Result u' = (if k = i then Some v else Result u)
          \<and> Arg1 u' = (if k \<in> ?D \<and> Arg1 u = i then formatFloat v else Arg1 u)
          \<and> Arg2 u' = (if k \<in> ?D \<and> Arg2 u = i then formatFloat v else Arg2 u)"
    if "tasks s' k = Some u'" for k u'
  proof -
    from that substituted_Some[of i "formatFloat v" ?D "(tasks s)(i \<mapsto> t\<lparr> Result := Some v \<rparr>)" k u']
    obtain u2 where u2: "((tasks s)(i \<mapsto> t\<lparr> Result := Some v \<rparr>)) k = Some u2"
      "u' = (if k \<in> ?D then substituteResult i (formatFloat v) u2 else u2)"
      unfolding ts by blast
    show ?thesis
    proof (cases "k = i")
      case True
      with u2(1) have "u2 = t\<lparr> Result := Some v \<rparr>" by simp
      with u2(2) True t show ?thesis
        by (intro exI[of _ t]) (simp add: substituteResult_def)
    next
      case False
      with u2(1) have "tasks s k = Some u2" by simp
      with u2(2) False show ?thesis
        by (intro exI[of _ u2]) (simp add: substituteResult_def)
    qed
  qed
  have "s2 = withResult i v t s\<lparr> expressions := expressions s2 \<rparr>"
    by (rule updateExpressionStatus_expressions[OF u])
  moreover have "expressions s' = expressions s2" by (simp add: s')
  ultimately show "updateExpressionStatus (ExpressionID t) keys (withResult i v t s)
           = Some (withResult i v t s\<lparr> expressions := expressions s' \<rparr>)"
    using u by simp
qed

lemma built_refl: "built parseFloat s s"
  by (auto simp: built_def)

lemma literal_not_task: "keysNamed s \<Longrightarrow> literal parseFloat x \<Longrightarrow> x \<notin> dom (tasks s)"
  unfolding keysNamed_def literal_def by blast

lemma createTask_built:
  assumes c: "createTask e a1 a2 operation s = (tid, s')"
    and w: "wellFormed s" and x: "extends e s0 s" and b: "built parseFloat s0 s"
    and a1: "literal parseFloat a1 \<or> a1 \<in> dom (tasks s) - dom (tasks s0)"
    and a2: "literal parseFloat a2 \<or> a2 \<in> dom (tasks s) - dom (tasks s0)"
  shows "built parseFloat s0 s'" and "tid \<in> dom (tasks s') - dom (tasks s0)"
proof -
  note f = createTask_frame[OF c]
  from w have k: "keysNamed s" by (simp add: wellFormed_def)
  have fresh: "tid \<notin> dom (tasks s)" using keysNamed_fresh[OF k] f(1) by simp
  have sub: "dom (tasks s0) \<subseteq> dom (tasks s)" using x unfolding extends_def by blast
  show new: "tid \<in> dom (tasks s') - dom (tasks s0)" using fresh sub f(8) by auto
  from createTask_task[OF c] obtain t where t: "tasks s' tid = Some t" "Arg1 t = a1" "Arg2 t = a2"
    "Result t = None" "set (Dependencies t) = {a1, a2} \<inter> dom (tasks s)" by blast
  have idt: "ID t = tid" using c t(1) by (auto simp: createTask_def Let_def)
  have lit: "\<And>a. literal parseFloat a \<Longrightarrow> a \<notin> dom (tasks s)"
    using literal_not_task[OF k] by blast
  have old: "\<And>a. a \<in> {a1, a2} \<inter> dom (tasks s) \<Longrightarrow> a \<notin> dom (tasks s0)"
    using a1 a2 lit by auto
  show "built parseFloat s0 s'" unfolding built_def
  proof (intro conjI ballI allI impI)
    fix j assume j: "j \<in> dom (tasks s0)"
    then have "j \<notin> {a1, a2} \<inter> dom (tasks s)" using old by blast
    then have "lookupList (reverseDependencies s') j = lookupList (reverseDependencies s) j"
      using c by (auto simp: createTask_def Let_def lookupList_def split: if_splits)
    then show "lookupList (reverseDependencies s') j = lookupList (reverseDependencies s0) j"
      using b j unfolding built_def by simp
  next
    fix j u assume "tasks s' j = Some u \<and> j \<notin> dom (tasks s0)"
    then have ju: "tasks s' j = Some u" and jn: "j \<notin> dom (tasks s0)" by simp_all
    show "ID u = j"
    proof (cases "j = tid")
      case True
      with ju t(1) idt show ?thesis by simp
    next
      case False
      with ju f(7) have "tasks s j = Some u" by simp
      with b jn show ?thesis unfolding built_def by blast
    qed
    show "Result u = None"
    proof (cases "j = tid")
      case True
      with ju t(1,4) show ?thesis by simp
    next
      case False
      with ju f(7) have "tasks s j = Some u" by simp
      with b jn show ?thesis unfolding built_def by blast
    qed
    fix a assume a: "a \<in> {Arg1 u, Arg2 u}"
    show "literal parseFloat a
        \<or> (a \<in> dom (tasks s') - dom (tasks s0) \<and> a \<in> set (Dependencies u)
            \<and> j \<in> set (lookupList (reverseDependencies s') a))"
    proof (cases "j = tid")
      case True
      with ju t(1) have ut: "u = t" by simp
      with a t(2,3) have aa: "a = a1 \<or> a = a2" by auto
      show ?thesis
      proof (cases "literal parseFloat a")
        case True
        then show ?thesis by simp
      next
        case False
        with aa a1 a2 have an: "a \<in> dom (tasks s) - dom (tasks s0)" by auto
        with aa have "a \<in> {a1, a2} \<inter> dom (tasks s)" by auto
        then have "a \<in> set (Dependencies u)" "j \<in> set (lookupList (reverseDependencies s') a)"
          unfolding createTask_dependents[OF c] ut t(5) \<open>j = tid\<close> by simp_all
        with an f(8) show ?thesis by auto
      qed
    next
      case False
      with ju f(7) have "tasks s j = Some u" by simp
      with b jn a have "literal parseFloat a
        \<or> (a \<in> dom (tasks s) - dom (tasks s0) \<and> a \<in> set (Dependencies u)
            \<and> j \<in> set (lookupList (reverseDependencies s) a))"
        unfolding built_def by blast
      then show ?thesis unfolding createTask_dependents[OF c] f(8) by auto
    qed
  qed
qed

lemma createTasks_loop_built:
  "createTasks_loop e toks stack s = (r, s') \<Longrightarrow> wellFormed s \<Longrightarrow> e \<in> dom (expressions s)
   \<Longrightarrow> extends e s0 s \<Longrightarrow> built parseFloat s0 s
   \<Longrightarrow> \<forall>x \<in> set toks. isOperator x \<or> literal parseFloat x
   \<Longrightarrow> \<forall>x \<in> set stack. literal parseFloat x \<or> x \<in> dom (tasks s) - dom (tasks s0)
   \<Longrightarrow> built parseFloat s0 s'"
proof (induction toks arbitrary: stack s)
  case Nil
  then show ?case by simp
next
  case (Cons token rest)
  from Cons.prems(6) have rest: "\<forall>x \<in> set rest. isOperator x \<or> literal parseFloat x" by simp
  show ?case
  proof (cases "isOperator token")
    case False
    with Cons.prems(1) have l: "createTasks_loop e rest (stack @ [token]) s = (r, s')" by simp
    from False Cons.prems(6) have "literal parseFloat token" by simp
    with Cons.prems(7) have "\<forall>x \<in> set (stack @ [token]).
        literal parseFloat x \<or> x \<in> dom (tasks s) - dom (tasks s0)" by simp
    from Cons.IH[OF l Cons.prems(2-5) rest this] show ?thesis .
  next
    case True
    show ?thesis
    proof (cases "length stack < 2")
      case True
      with \<open>isOperator token\<close> Cons.prems(1,5) show ?thesis by simp
    next
      case False
      let ?a1 = "stack ! (length stack - 2)" and ?a2 = "stack ! (length stack - 1)"
      obtain tid s1 where c: "createTask e ?a1 ?a2 token s = (tid, s1)"
        by (metis surj_pair)
      with False \<open>isOperator token\<close> Cons.prems(1)
      have l: "createTasks_loop e rest (take (length stack - 2) stack @ [tid]) s1 = (r, s')"
        by (simp add: Let_def)
      from False have "?a1 \<in> set stack" "?a2 \<in> set stack" by simp_all
      with Cons.prems(7) have a: "literal parseFloat ?a1 \<or> ?a1 \<in> dom (tasks s) - dom (tasks s0)"
        "literal parseFloat ?a2 \<or> ?a2 \<in> dom (tasks s) - dom (tasks s0)" by blast+
      note b1 = createTask_built[OF c Cons.prems(2,4,5) a]
      have w1: "wellFormed s1" by (rule createTask_wellFormed[OF c Cons.prems(2,3)])
      have x: "extends e s s1"
        using createTask_extends[OF c] Cons.prems(2) by (simp add: wellFormed_def)
      have x1: "extends e s0 s1" by (rule extends_trans[OF Cons.prems(4) x])
      have e1: "e \<in> dom (expressions s1)" using x Cons.prems(3) by (simp add: extends_def)
      have grow: "dom (tasks s) \<subseteq> dom (tasks s1)" using x unfolding extends_def by blast
      have "\<forall>x \<in> set (take (length stack - 2) stack @ [tid]).
          literal parseFloat x \<or> x \<in> dom (tasks s1) - dom (tasks s0)"
      proof
        fix y assume "y \<in> set (take (length stack - 2) stack @ [tid])"
        then consider "y = tid" | "y \<in> set stack" by (auto dest: in_set_takeD)
        then show "literal parseFloat y \<or> y \<in> dom (tasks s1) - dom (tasks s0)"
        proof cases
          case 1
          then show ?thesis using b1(2) by simp
        next
          case 2
          with Cons.prems(7) grow show ?thesis by blast
        qed
      qed
      from Cons.IH[OF l w1 e1 x1 b1(1) rest this] show ?thesis .
    qed
  qed
qed

lemma popOperators_sets:
  "popOperators token out stk = (out', stk')
     \<Longrightarrow> set stk' \<subseteq> set stk \<and> set out' \<subseteq> set out \<union> (set stk - {''(''})"
proof (induction token out stk rule: popOperators.induct)
  case (1 token out stk)
  show ?case
  proof (cases "length stk > 0 \<and> last stk \<noteq> ''('' \<and> hasHigherPrecedence (last stk) token")
    case True
    with "1.prems" have "popOperators token (out @ [last stk]) (butlast stk) = (out', stk')"
      by (subst (asm) popOperators.simps) simp
    from "1.IH"[OF True this] True show ?thesis
      by (auto dest: in_set_butlastD)
  next
    case False
    with "1.prems" show ?thesis by (subst (asm) popOperators.simps) auto
  qed
qed

lemma popToParen_sets:
  "popToParen out stk = (out', stk')
     \<Longrightarrow> set stk' \<subseteq> set stk \<and> set out' \<subseteq> set out \<union> (set stk - {''(''})"
proof (induction out stk rule: popToParen.induct)
  case (1 out stk)
  show ?case
  proof (cases "length stk > 0 \<and> last stk \<noteq> ''(''")
    case True
    with "1.prems" have "popToParen (out @ [last stk]) (butlast stk) = (out', stk')"
      by (subst (asm) popToParen.simps) simp
    from "1.IH"[OF True this] True show ?thesis
      by (auto dest: in_set_butlastD)
  next
    case False
    with "1.prems" show ?thesis by (subst (asm) popToParen.simps) auto
  qed
qed

lemma drainOperators_sets:
  "drainOperators out stk = Inr out' \<Longrightarrow> set out' \<subseteq> set out \<union> (set stk - {''(''})"
proof (induction out stk rule: drainOperators.induct)
  case (1 out stk)
  show ?case
  proof (cases "length stk > 0")
    case True
    with "1.prems" have n: "last stk \<noteq> ''(''"
      by (subst (asm) drainOperators.simps) (auto split: if_splits)
    with True "1.prems" have "drainOperators (out @ [last stk]) (butlast stk) = Inr out'"
      by (subst (asm) drainOperators.simps) simp
    from "1.IH"[OF True n this] True n show ?thesis
      by (auto dest: in_set_butlastD)
  next
    case False
    with "1.prems" show ?thesis by (subst (asm) drainOperators.simps) auto
  qed
qed

lemma shuntingYard_loop_output:
  "shuntingYard_loop parseFloat toks out stk = Inr (out', stk')
   \<Longrightarrow> \<forall>x \<in> set out. outputToken parseFloat x \<and> x \<in> A
   \<Longrightarrow> \<forall>x \<in> set stk. (isOperator x \<or> x = ''('') \<and> x \<in> A
   \<Longrightarrow> set toks \<subseteq> A
   \<Longrightarrow> (\<forall>x \<in> set out'. outputToken parseFloat x \<and> x \<in> A)
       \<and> (\<forall>x \<in> set stk'. (isOperator x \<or> x = ''('') \<and> x \<in> A)"
proof (induction toks arbitrary: out stk)
  case Nil
  then show ?case by simp
next
  case (Cons token rest)
  from Cons.prems(4) have ta: "token \<in> A" and ra: "set rest \<subseteq> A" by simp_all
  consider (num) "isNumber parseFloat token"
    | (op) "\<not> isNumber parseFloat token" "isOperator token"
    | (lparen) "\<not> isNumber parseFloat token" "\<not> isOperator token" "token = ''(''"
    | (rparen) "\<not> isNumber parseFloat token" "\<not> isOperator token" "token \<noteq> ''(''" "token = '')''"
    | (other) "\<not> isNumber parseFloat token" "\<not> isOperator token" "token \<noteq> ''(''" "token \<noteq> '')''"
    by blast
  then show ?case
  proof cases
    case num
    with Cons.prems(1) have l: "shuntingYard_loop parseFloat rest (out @ [token]) stk = Inr (out', stk')"
      by simp
    have "\<forall>x \<in> set (out @ [token]). outputToken parseFloat x \<and> x \<in> A"
      using Cons.prems(2) num ta by (simp add: outputToken_def)
    from Cons.IH[OF l this Cons.prems(3) ra] show ?thesis .
  next
    case op
    obtain o1 s1 where p: "popOperators token out stk = (o1, s1)" by (metis surj_pair)
    with op Cons.prems(1) have l: "shuntingYard_loop parseFloat rest o1 (s1 @ [token]) = Inr (out', stk')"
      by simp
    note ps = popOperators_sets[OF p]
    have o: "\<forall>x \<in> set o1. outputToken parseFloat x \<and> x \<in> A"
      using ps Cons.prems(2,3) by (auto simp: outputToken_def)
    have s: "\<forall>x \<in> set (s1 @ [token]). (isOperator x \<or> x = ''('') \<and> x \<in> A"
      using ps Cons.prems(3) op(2) ta by auto
    from Cons.IH[OF l o s ra] show ?thesis .
  next
    case lparen
    with Cons.prems(1) have l: "shuntingYard_loop parseFloat rest out (stk @ [token]) = Inr (out', stk')"
      by simp
    have "\<forall>x \<in> set (stk @ [token]). (isOperator x \<or> x = ''('') \<and> x \<in> A"
      using Cons.prems(3) lparen(3) ta by simp
    from Cons.IH[OF l Cons.prems(2) this ra] show ?thesis .
  next
    case rparen
    obtain o1 s1 where p: "popToParen out stk = (o1, s1)" by (metis surj_pair)
    with rparen Cons.prems(1) have l: "shuntingYard_loop parseFloat rest o1 (butlast s1) = Inr (out', stk')"
      by (simp split: if_splits)
    note ps = popToParen_sets[OF p]
    have o: "\<forall>x \<in> set o1. outputToken parseFloat x \<and> x \<in> A"
      using ps Cons.prems(2,3) by (auto simp: outputToken_def)
    have s: "\<forall>x \<in> set (butlast s1). (isOperator x \<or> x = ''('') \<and> x \<in> A"
      using ps Cons.prems(3) by (auto dest: in_set_butlastD)
    from Cons.IH[OF l o s ra] show ?thesis .
  next
    case other
    with Cons.prems(1) have l: "shuntingYard_loop parseFloat rest out stk = Inr (out', stk')"
      by simp
    from Cons.IH[OF l Cons.prems(2,3) ra] show ?thesis .
  qed
qed

lemma shuntingYard_output:
  assumes "shuntingYard parseFloat tokens = Inr output"
  shows "\<forall>x \<in> set output. outputToken parseFloat x \<and> x \<in> set tokens"
proof -
  from assms obtain out stk where l: "shuntingYard_loop parseFloat tokens [] [] = Inr (out, stk)"
    and d: "drainOperators out stk = Inr output"
    by (auto simp: shuntingYard_def split: sum.splits)
  from shuntingYard_loop_output[OF l, of "set tokens"]
  have o: "\<forall>x \<in> set out. outputToken parseFloat x \<and> x \<in> set tokens"
    and s: "\<forall>x \<in> set stk. (isOperator x \<or> x = ''('') \<and> x \<in> set tokens" by simp_all
  from drainOperators_sets[OF d] o s show ?thesis by (auto simp: outputToken_def)
qed

lemma token_not_taskName:
  assumes "symbolToken x \<or> numericToken x"
  shows "x \<notin> range taskName"
proof
  assume "x \<in> range taskName"
  then obtain n where "x = taskName n" by blast
  then have x: "x = CHR ''t'' # ''ask_'' @ formatInt n" by (simp add: taskName_def)
  from assms show False
  proof
    assume "symbolToken x"
    then show False unfolding x by (auto simp: symbolToken_def isOperator_def)
  next
    assume "numericToken x"
    then show False unfolding x by (simp add: numericToken_def numberByte_def isDigit_def)
  qed
qed

lemma compiled_tokens_literal:
  assumes "tokenize text = Inr tokens" "shuntingYard parseFloat tokens = Inr postfix"
  shows "\<forall>x \<in> set postfix. isOperator x \<or> literal parseFloat x"
proof
  fix x assume "x \<in> set postfix"
  with shuntingYard_output[OF assms(2)] have o: "outputToken parseFloat x" and t: "x \<in> set tokens"
    by blast+
  from tokenize_shape[OF assms(1)] t have "symbolToken x \<or> numericToken x"
    by (auto simp: list_all_iff)
  from token_not_taskName[OF this] o show "isOperator x \<or> literal parseFloat x"
    by (auto simp: literal_def outputToken_def)
qed

text \<open>What a submission with a fresh identifier leaves of a well-formed state.\<close>

lemma SubmitExpression_state:
  assumes w: "wellFormed s" and fresh: "id' \<notin> dom (expressions s)"
    and r: "SubmitExpression parseFloat id' e keys s = (r, s')"
  shows "completedTasks s' = completedTasks s"
    and "\<exists>st. (st = Failed \<or> st = InProcess)
           \<and> expressions s' = (expressions s)(id' \<mapsto> submitted id' (stripSpaces e) st)"
    and "\<And>k u. tasks s k = Some u \<Longrightarrow> tasks s' k = Some u"
    and "\<And>k u. tasks s' k = Some u \<Longrightarrow>
           tasks s k = Some u \<or> (k \<notin> dom (tasks s) \<and> ExpressionID u = id')"
    and "built parseFloat s s'"
    and "readyTasks s \<subseteq> readyTasks s'"
    and "\<And>k. k \<in> readyTasks s' - readyTasks s \<Longrightarrow>
           k \<notin> dom (tasks s) \<and> (\<exists>u. tasks s' k = Some u
             \<and> Arg1 u \<notin> dom (tasks s') \<and> Arg2 u \<notin> dom (tasks s'))"
proof -
  let ?s1 = "withExpression id' (stripSpaces e) Pending s"
  have w1: "wellFormed ?s1" using w by (rule wellFormed_withExpression)
  have d1: "id' \<in> dom (expressions ?s1)" by (simp add: withExpression_def)
  have known: "\<And>k u. tasks s k = Some u \<Longrightarrow> ExpressionID u \<noteq> id'"
    using w fresh unfolding wellFormed_def expressionsKnown_def by blast
  have wf: "\<And>st x. completedTasks (withExpression id' (stripSpaces e) st x) = completedTasks x"
    "\<And>st x. tasks (withExpression id' (stripSpaces e) st x) = tasks x"
    "\<And>st x. readyTasks (withExpression id' (stripSpaces e) st x) = readyTasks x"
    "\<And>st x. reverseDependencies (withExpression id' (stripSpaces e) st x) = reverseDependencies x"
    "\<And>st x. expressions (withExpression id' (stripSpaces e) st x)
        = (expressions x)(id' \<mapsto> submitted id' (stripSpaces e) st)"
    by (simp_all add: withExpression_def)
  have bw: "\<And>st x. built parseFloat ?s1 x \<Longrightarrow> built parseFloat s (withExpression id' (stripSpaces e) st x)"
    unfolding built_def wf by simp
  have all: "completedTasks s' = completedTasks s
    \<and> (\<exists>st. (st = Failed \<or> st = InProcess)
           \<and> expressions s' = (expressions s)(id' \<mapsto> submitted id' (stripSpaces e) st))
    \<and> (\<forall>k u. tasks s k = Some u \<longrightarrow> tasks s' k = Some u)
    \<and> (\<forall>k u. tasks s' k = Some u \<longrightarrow>
           tasks s k = Some u \<or> (k \<notin> dom (tasks s) \<and> ExpressionID u = id'))
    \<and> built parseFloat s s'
    \<and> readyTasks s \<subseteq> readyTasks s'
    \<and> (\<forall>k \<in> readyTasks s' - readyTasks s.
           k \<notin> dom (tasks s) \<and> (\<exists>u. tasks s' k = Some u
             \<and> Arg1 u \<notin> dom (tasks s') \<and> Arg2 u \<notin> dom (tasks s')))"
    using r
  proof (cases rule: SubmitExpression_cases)
    case (rejected err)
    have "built parseFloat ?s1 ?s1" by (rule built_refl)
    then have "built parseFloat ?s1 s" unfolding built_def wf by simp
    then have "built parseFloat s s'" unfolding rejected(2) by (rule bw)
    then show ?thesis unfolding rejected(2) wf by auto
  next
    case (failed err tokens postfix res s2)
    note l = createTasks_loop_wellFormed[OF failed(4) w1 d1]
    from l have x: "extends id' ?s1 s2" by simp
    have "built parseFloat ?s1 s2"
      by (rule createTasks_loop_built[OF failed(4) w1 d1 extends_refl built_refl
            compiled_tokens_literal[OF failed(2,3)]]) simp
    then have b: "built parseFloat s s'" unfolding failed(5) by (rule bw)
    from x have "completedTasks s2 = completedTasks s" "readyTasks s2 = readyTasks s"
      "expressions s2 = expressions ?s1"
      "\<forall>k u. tasks s k = Some u \<longrightarrow> tasks s2 k = Some u"
      "\<forall>k u. tasks s2 k = Some u \<longrightarrow>
           tasks s k = Some u \<or> (k \<notin> dom (tasks s) \<and> ExpressionID u = id')"
      unfolding extends_def wf by simp_all
    with b show ?thesis unfolding failed(5) wf by auto
  next
    case (built tokens postfix top s2)
    note l = createTasks_loop_wellFormed[OF built(4) w1 d1]
    from l have x: "extends id' ?s1 s2" and w2: "wellFormed s2" by simp_all
    have "built parseFloat ?s1 s2"
      by (rule createTasks_loop_built[OF built(4) w1 d1 extends_refl built_refl
            compiled_tokens_literal[OF built(2,3)]]) simp
    then have "built parseFloat ?s1 (markReady id' keys s2)"
      unfolding markReady_eq built_def by simp
    then have b: "built parseFloat s s'" unfolding built(5) by (rule bw)
    from x have f: "completedTasks s2 = completedTasks s" "readyTasks s2 = readyTasks s"
      "expressions s2 = expressions ?s1"
      "\<forall>k u. tasks s k = Some u \<longrightarrow> tasks s2 k = Some u"
      "\<forall>k u. tasks s2 k = Some u \<longrightarrow>
           tasks s k = Some u \<or> (k \<notin> dom (tasks s) \<and> ExpressionID u = id')"
      unfolding extends_def wf by simp_all
    have m: "tasks (markReady id' keys s2) = tasks s2"
      "completedTasks (markReady id' keys s2) = completedTasks s2"
      "expressions (markReady id' keys s2) = expressions s2"
      "readyTasks (markReady id' keys s2) = readyTasks s2 \<union> readyCandidates id' keys s2"
      unfolding markReady_eq by simp_all
    have c: "\<forall>k \<in> readyCandidates id' keys s2. k \<notin> dom (tasks s)
        \<and> (\<exists>u. tasks s2 k = Some u \<and> Arg1 u \<notin> dom (tasks s2) \<and> Arg2 u \<notin> dom (tasks s2))"
    proof
      fix k assume "k \<in> readyCandidates id' keys s2"
      then obtain u where u: "tasks s2 k = Some u" "ExpressionID u = id'"
        "Arg1 u \<notin> dom (tasks s2)" "Arg2 u \<notin> dom (tasks s2)"
        unfolding readyCandidates_def by blast
      from f(5) u(1) have "tasks s k = Some u \<or> k \<notin> dom (tasks s)" by blast
      with known u(2) have "k \<notin> dom (tasks s)" by blast
      with u show "k \<notin> dom (tasks s)
        \<and> (\<exists>u. tasks s2 k = Some u \<and> Arg1 u \<notin> dom (tasks s2) \<and> Arg2 u \<notin> dom (tasks s2))"
        by blast
    qed
    show ?thesis unfolding built(5) wf m f(1,2,3)
      using b f(4,5) c unfolding built(5) by auto
  qed
  then show "completedTasks s' = completedTasks s"
    and "\<exists>st. (st = Failed \<or> st = InProcess)
           \<and> expressions s' = (expressions s)(id' \<mapsto> submitted id' (stripSpaces e) st)"
    and "\<And>k u. tasks s k = Some u \<Longrightarrow> tasks s' k = Some u"
    and "\<And>k u. tasks s' k = Some u \<Longrightarrow>
           tasks s k = Some u \<or> (k \<notin> dom (tasks s) \<and> ExpressionID u = id')"
    and "built parseFloat s s'"
    and "readyTasks s \<subseteq> readyTasks s'"
    and "\<And>k. k \<in> readyTasks s' - readyTasks s \<Longrightarrow>
           k \<notin> dom (tasks s) \<and> (\<exists>u. tasks s' k = Some u
             \<and> Arg1 u \<notin> dom (tasks s') \<and> Arg2 u \<notin> dom (tasks s'))"
    by blast+
qed

section \<open>Recording results\<close>

text \<open>
  Claim C6, as amended.  In every state that the service reaches, \<open>SetTaskResult\<close>
  returns, and it succeeds exactly when the identifier is a key of the task map;
  whether a pull has returned the task plays no part.
\<close>

theorem SetTaskResult_succeeds_iff_task:
  assumes "reaches parseFloat formatFloat times' operations responses s"
  shows "\<exists>r s'. SetTaskResult formatFloat id' result keys s = Some (r, s')
           \<and> (r = None \<longleftrightarrow> id' \<in> dom (tasks s))
           \<and> (id' \<notin> dom (tasks s) \<longrightarrow> r = Some (TaskNotFound id') \<and> s' = s)"
proof (cases "tasks s id'")
  case None
  then show ?thesis by (simp add: SetTaskResult_def domIff)
next
  case (Some t)
  from SetTaskResult_recorded[OF reaches_wellFormed[OF assms] Some, of keys result formatFloat]
  show ?thesis using Some by (metis domI)
qed

lemma compile_2p2:
  "tokenize ''2+2'' = Inr [''2'', ''+'', ''2'']"
  "shuntingYard parseDecimal [''2'', ''+'', ''2''] = Inr [''2'', ''2'', ''+'']"
  by (simp_all add: tokenize_def tokenize_loop.simps(2) byteToString_def Let_def
        shuntingYard_def isOperator_def popOperators.simps drainOperators.simps
        hasHigherPrecedence_def getPrecedence_def isNumber_def parseDecimal_def isDigit_def)

text \<open>A run in which a result is recorded for a task that no pull has returned.\<close>

lemma record_without_pull:
  "\<exists>s :: nat Service. reaches parseDecimal formatWhole unitTimes
     [Submit ''e1'' ''2+2'' [''task_1''], Record ''task_1'' 4 [''task_1'']]
     [Submitted (Inr ''e1''), Recorded None] s"
  by (simp add: reaches_def scenario_defs compile_2p2 enumerates_def)

text \<open>
  Claim C6 as stated fails: after \<open>2+2\<close> is submitted, \<open>SetTaskResult\<close> succeeds
  for \<open>task_1\<close> although no pull has happened.
\<close>

theorem record_without_pull_counterexample:
  "\<not> (\<forall>operations responses (s :: nat Service).
        reaches parseDecimal formatWhole unitTimes operations responses s
          \<longrightarrow> recordsAfterPull {} (zip operations responses))"
proof
  assume a: "\<forall>operations responses (s :: nat Service).
        reaches parseDecimal formatWhole unitTimes operations responses s
          \<longrightarrow> recordsAfterPull {} (zip operations responses)"
  from record_without_pull obtain s :: "nat Service" where
    "reaches parseDecimal formatWhole unitTimes
     [Submit ''e1'' ''2+2'' [''task_1''], Record ''task_1'' 4 [''task_1'']]
     [Submitted (Inr ''e1''), Recorded None] s" by blast
  with a have "recordsAfterPull {}
     (zip [Submit ''e1'' ''2+2'' [''task_1''], Record ''task_1'' (4::nat) [''task_1'']]
          [Submitted (Inr ''e1''), Recorded None])" by blast
  then show False by simp
qed

lemma reaches_submit_2p2:
  "\<exists>s :: nat Service. reaches parseDecimal formatWhole unitTimes
     [Submit ''e1'' ''2+2'' [''task_1'']] [Submitted (Inr ''e1'')] s
     \<and> dom (tasks s) = {''task_1''}"
  by (simp add: reaches_def scenario_defs compile_2p2 enumerates_def)

text \<open>The theorem in the state after \<open>2+2\<close> is submitted, for a task and for an unknown key.\<close>

theorem SetTaskResult_succeeds_iff_task_witness:
  "\<exists>s :: nat Service. reaches parseDecimal formatWhole unitTimes
     [Submit ''e1'' ''2+2'' [''task_1'']] [Submitted (Inr ''e1'')] s
     \<and> (\<exists>s'. SetTaskResult formatWhole ''task_1'' 4 [''task_1''] s = Some (None, s'))
     \<and> SetTaskResult formatWhole ''task_7'' 4 [''task_1''] s = Some (Some (TaskNotFound ''task_7''), s)"
proof -
  from reaches_submit_2p2 obtain s :: "nat Service" where
    r: "reaches parseDecimal formatWhole unitTimes
     [Submit ''e1'' ''2+2'' [''task_1'']] [Submitted (Inr ''e1'')] s"
    and d: "dom (tasks s) = {''task_1''}" by blast
  from SetTaskResult_succeeds_iff_task[OF r, of "''task_1''" 4 "[''task_1'']"] d
  have a: "\<exists>s'. SetTaskResult formatWhole ''task_1'' 4 [''task_1''] s = Some (None, s')"
    by auto
  from SetTaskResult_succeeds_iff_task[OF r, of "''task_7''" 4 "[''task_1'']"] d
  have b: "SetTaskResult formatWhole ''task_7'' 4 [''task_1''] s = Some (Some (TaskNotFound ''task_7''), s)"
    by auto
  from r a b show ?thesis by blast
qed

lemma substituted_args:
  assumes "k \<in> D" "m k = Some u"
  shows "\<exists>u'. substituted i x D m k = Some u'
           \<and> Arg1 u' = (if Arg1 u = i then x else Arg1 u)
           \<and> Arg2 u' = (if Arg2 u = i then x else Arg2 u)
           \<and> Result u' = Result u \<and> Dependencies u' = Dependencies u"
  using assms by (simp add: substituted_def substituteResult_def)

lemma substituted_result:
  assumes "m k = Some u"
  shows "\<exists>u'. substituted i x D m k = Some u' \<and> Result u' = Result u"
  using assms by (simp add: substituted_def)

text \<open>
  Claim C9.  In every state that the service reaches, \<open>SetTaskResult\<close> for a task that
  already has a result succeeds; afterwards the task holds the new result, every operand
  of a dependent that still named the task holds the text of the new result, and every
  dependent whose dependencies are all completed is in the ready set.
\<close>

theorem second_result_accepted:
  assumes r: "reaches parseFloat formatFloat times' operations responses s"
    and t: "tasks s id' = Some t" and result_before: "Result t = Some previous"
  shows "\<exists>s'. SetTaskResult formatFloat id' result keys s = Some (None, s')
    \<and> (\<exists>t'. tasks s' id' = Some t' \<and> Result t' = Some result)
    \<and> (\<forall>k \<in> set (lookupList (reverseDependencies s) id'). \<exists>u u'.
          tasks s k = Some u \<and> tasks s' k = Some u'
          \<and> Arg1 u' = (if Arg1 u = id' then formatFloat result else Arg1 u)
          \<and> Arg2 u' = (if Arg2 u = id' then formatFloat result else Arg2 u)
          \<and> (set (Dependencies u) \<subseteq> insert id' (completedTasks s) \<longrightarrow> k \<in> readyTasks s'))"
proof -
  let ?D = "set (lookupList (reverseDependencies s) id')"
  note w = reaches_wellFormed[OF r]
  from SetTaskResult_recorded[OF w t, of keys result formatFloat] obtain s2 where
    u: "updateExpressionStatus (ExpressionID t) keys (withResult id' result t s) = Some s2"
    and s': "SetTaskResult formatFloat id' result keys s =
      Some (None, s2\<lparr> tasks := substituted id' (formatFloat result) ?D (tasks s2),
                     readyTasks := readyTasks s2 \<union> nowReady ?D s2 \<rparr>)"
    by blast
  let ?s' = "s2\<lparr> tasks := substituted id' (formatFloat result) ?D (tasks s2),
                     readyTasks := readyTasks s2 \<union> nowReady ?D s2 \<rparr>"
  note f = updateExpressionStatus_frame[OF u]
  have t2: "tasks s2 = (tasks s)(id' \<mapsto> t\<lparr> Result := Some result \<rparr>)"
    and c2: "completedTasks s2 = insert id' (completedTasks s)"
    unfolding f by (simp_all add: withResult_def)
  have a: "\<exists>t'. tasks ?s' id' = Some t' \<and> Result t' = Some result"
    using substituted_result[of "tasks s2" id' "t\<lparr> Result := Some result \<rparr>" id' "formatFloat result" ?D]
    by (simp add: t2)
  have b: "\<forall>k \<in> ?D. \<exists>u u'.
          tasks s k = Some u \<and> tasks ?s' k = Some u'
          \<and> Arg1 u' = (if Arg1 u = id' then formatFloat result else Arg1 u)
          \<and> Arg2 u' = (if Arg2 u = id' then formatFloat result else Arg2 u)
          \<and> (set (Dependencies u) \<subseteq> insert id' (completedTasks s) \<longrightarrow> k \<in> readyTasks ?s')"
  proof
    fix k assume k: "k \<in> ?D"
    with dependents_are_tasks[OF w, of id'] obtain u where u: "tasks s k = Some u" by blast
    define u2 where "u2 = (if k = id' then t\<lparr> Result := Some result \<rparr> else u)"
    have u2: "tasks s2 k = Some u2" "Arg1 u2 = Arg1 u" "Arg2 u2 = Arg2 u"
      "Dependencies u2 = Dependencies u"
      using u t by (auto simp: t2 u2_def)
    from substituted_args[where m="tasks s2" and k=k and D="?D" and u=u2 and i=id'
        and x="formatFloat result"] k u2(1) obtain u' where
      u': "substituted id' (formatFloat result) ?D (tasks s2) k = Some u'"
      "Arg1 u' = (if Arg1 u2 = id' then formatFloat result else Arg1 u2)"
      "Arg2 u' = (if Arg2 u2 = id' then formatFloat result else Arg2 u2)"
      by blast
    have "set (Dependencies u) \<subseteq> insert id' (completedTasks s) \<longrightarrow> k \<in> nowReady ?D s2"
      using k u2(1,4) by (auto simp: nowReady_def c2)
    with u u' u2 show "\<exists>u u'.
          tasks s k = Some u \<and> tasks ?s' k = Some u'
          \<and> Arg1 u' = (if Arg1 u = id' then formatFloat result else Arg1 u)
          \<and> Arg2 u' = (if Arg2 u = id' then formatFloat result else Arg2 u)
          \<and> (set (Dependencies u) \<subseteq> insert id' (completedTasks s) \<longrightarrow> k \<in> readyTasks ?s')"
      by (intro exI[of _ u] exI[of _ u']) simp
  qed
  from s' a b show ?thesis by blast
qed

lemma reaches_second_pull:
  "\<exists>responses (s :: nat Service). reaches parseDecimal formatWhole unitTimes
     [Submit ''e1'' ''2+2*2'' [''task_1'', ''task_2''], Pull [''task_1''],
      Record ''task_1'' 4 [''task_1'', ''task_2''], Pull [''task_2'']] responses s
     \<and> tasks s ''task_1'' = Some ((multiplicationTask ''e1'' unitTimes)
           \<lparr> Status := ''processing'', Result := Some 4 \<rparr>)
     \<and> lookupList (reverseDependencies s) ''task_1'' = [''task_2'']
     \<and> tasks s ''task_2'' = Some ((additionTask ''e1'' unitTimes ''4.000000'')
           \<lparr> Status := ''processing'' \<rparr>)
     \<and> completedTasks s = {''task_1''} \<and> readyTasks s = {}"
  by (simp add: reaches_def scenario_defs compile_2p2m2[OF parseDecimal_symbols parseDecimal_2]
      enumerates_def formatWhole_def digitsOf.simps digitChar_def)


text \<open>
  The theorem after \<open>2+2*2\<close> was submitted, its multiplication pulled and recorded and
  its addition pulled: a second result for the multiplication is accepted and puts the
  addition, which is being processed, back into the ready set.
\<close>

theorem second_result_accepted_witness:
  "\<exists>responses (s :: nat Service). reaches parseDecimal formatWhole unitTimes
     [Submit ''e1'' ''2+2*2'' [''task_1'', ''task_2''], Pull [''task_1''],
      Record ''task_1'' 4 [''task_1'', ''task_2''], Pull [''task_2'']] responses s
     \<and> (\<exists>t. tasks s ''task_1'' = Some t \<and> Result t = Some 4)
     \<and> ''task_2'' \<notin> readyTasks s
     \<and> (\<exists>s'. SetTaskResult formatWhole ''task_1'' 5 [''task_1'', ''task_2''] s = Some (None, s')
           \<and> (\<exists>t'. tasks s' ''task_1'' = Some t' \<and> Result t' = Some 5)
           \<and> ''task_2'' \<in> readyTasks s')"
proof -
  from reaches_second_pull obtain responses and s :: "nat Service" where
    r: "reaches parseDecimal formatWhole unitTimes
     [Submit ''e1'' ''2+2*2'' [''task_1'', ''task_2''], Pull [''task_1''],
      Record ''task_1'' 4 [''task_1'', ''task_2''], Pull [''task_2'']] responses s"
    and t1: "tasks s ''task_1'' = Some ((multiplicationTask ''e1'' unitTimes)
           \<lparr> Status := ''processing'', Result := Some 4 \<rparr>)"
    and d: "lookupList (reverseDependencies s) ''task_1'' = [''task_2'']"
    and t2: "tasks s ''task_2'' = Some ((additionTask ''e1'' unitTimes ''4.000000'')
           \<lparr> Status := ''processing'' \<rparr>)"
    and c: "completedTasks s = {''task_1''}" and e: "readyTasks s = {}"
    by (elim exE conjE) (rule that, assumption+)
  have p: "Result ((multiplicationTask ''e1'' unitTimes)
           \<lparr> Status := ''processing'', Result := Some (4::nat) \<rparr>) = Some 4" by simp
  from second_result_accepted[OF r t1 p, of 5 "[''task_1'', ''task_2'']"] obtain s' where
    s1: "SetTaskResult formatWhole ''task_1'' 5 [''task_1'', ''task_2''] s = Some (None, s')"
    and s2: "\<exists>t'. tasks s' ''task_1'' = Some t' \<and> Result t' = Some 5"
    and s3: "\<forall>k \<in> set (lookupList (reverseDependencies s) ''task_1''). \<exists>u u'.
          tasks s k = Some u \<and> tasks s' k = Some u'
          \<and> Arg1 u' = (if Arg1 u = ''task_1'' then formatWhole 5 else Arg1 u)
          \<and> Arg2 u' = (if Arg2 u = ''task_1'' then formatWhole 5 else Arg2 u)
          \<and> (set (Dependencies u) \<subseteq> insert ''task_1'' (completedTasks s) \<longrightarrow> k \<in> readyTasks s')"
    by (elim exE conjE) (rule that, assumption, (rule exI, rule conjI, assumption, assumption), assumption)
  from s3 have "\<exists>u u'. tasks s ''task_2'' = Some u \<and> tasks s' ''task_2'' = Some u'
          \<and> Arg1 u' = (if Arg1 u = ''task_1'' then formatWhole 5 else Arg1 u)
          \<and> Arg2 u' = (if Arg2 u = ''task_1'' then formatWhole 5 else Arg2 u)
          \<and> (set (Dependencies u) \<subseteq> insert ''task_1'' (completedTasks s) \<longrightarrow> ''task_2'' \<in> readyTasks s')"
    unfolding d by simp
  then have s4: "''task_2'' \<in> readyTasks s'"
    unfolding t2 by (auto simp: additionTask_def)
  have A: "\<exists>t. tasks s ''task_1'' = Some t \<and> Result t = Some 4"
    by (intro exI conjI) (rule t1, rule p)
  have B: "''task_2'' \<notin> readyTasks s" by (simp add: e)
  have C: "\<exists>s'. SetTaskResult formatWhole ''task_1'' 5 [''task_1'', ''task_2''] s = Some (None, s')
           \<and> (\<exists>t'. tasks s' ''task_1'' = Some t' \<and> Result t' = Some 5)
           \<and> ''task_2'' \<in> readyTasks s'"
    by (intro exI[of _ s'] conjI) (rule s1 s2 s4)+
  show ?thesis
    by (rule exI[of _ responses], rule exI[of _ s], intro conjI) (rule r A B C)+
qed

section \<open>A failed build\<close>

text \<open>
  What the first loop of \<open>createTasksFromPostfix\<close> leaves, whether it fails or not: the
  counter has advanced by the number of tasks created, the new keys are the names of
  the numbers in between, the index entries have only grown, and every new task is in
  the index entry of each of its dependencies.
\<close>

lemma createTasks_loop_created:
  "createTasks_loop e toks stack s = (r, s') \<Longrightarrow> wellFormed s \<Longrightarrow> e \<in> dom (expressions s)
   \<Longrightarrow> taskIDCounter s' = taskIDCounter s + int (tasksCreated toks (length stack))
     \<and> dom (tasks s') = dom (tasks s) \<union> taskName ` {taskIDCounter s <.. taskIDCounter s'}
     \<and> (\<forall>d. set (lookupList (reverseDependencies s) d)
              \<subseteq> set (lookupList (reverseDependencies s') d))
     \<and> (\<forall>k u. tasks s' k = Some u \<and> k \<notin> dom (tasks s) \<longrightarrow>
           (\<forall>d \<in> set (Dependencies u). k \<in> set (lookupList (reverseDependencies s') d)))"
proof (induction toks arbitrary: stack s)
  case Nil
  then show ?case by auto
next
  case (Cons token rest)
  show ?case
  proof (cases "isOperator token")
    case False
    with Cons.prems(1) have "createTasks_loop e rest (stack @ [token]) s = (r, s')" by simp
    from Cons.IH[OF this Cons.prems(2,3)] False show ?thesis by simp
  next
    case True
    show ?thesis
    proof (cases "length stack < 2")
      case True
      with \<open>isOperator token\<close> Cons.prems show ?thesis by auto
    next
      case False
      let ?a1 = "stack ! (length stack - 2)" and ?a2 = "stack ! (length stack - 1)"
      obtain tid s1 where c: "createTask e ?a1 ?a2 token s = (tid, s1)"
        by (metis surj_pair)
      with False \<open>isOperator token\<close> Cons.prems(1)
      have l: "createTasks_loop e rest (take (length stack - 2) stack @ [tid]) s1 = (r, s')"
        by (simp add: Let_def)
      note f = createTask_frame[OF c]
      have w1: "wellFormed s1" by (rule createTask_wellFormed[OF c Cons.prems(2,3)])
      have e1: "e \<in> dom (expressions s1)" using Cons.prems(3) unfolding f(3) .
      from createTasks_loop_wellFormed[OF l w1 e1] have x: "extends e s1 s'" by simp
      have len: "length (take (length stack - 2) stack @ [tid]) = length stack - 1"
        using False by simp
      from Cons.IH[OF l w1 e1]
      have i1: "taskIDCounter s' = taskIDCounter s1 + int (tasksCreated rest (length stack - 1))"
        and i2: "dom (tasks s') = dom (tasks s1) \<union> taskName ` {taskIDCounter s1 <.. taskIDCounter s'}"
        and i3: "\<forall>d. set (lookupList (reverseDependencies s1) d)
              \<subseteq> set (lookupList (reverseDependencies s') d)"
        and i4: "\<forall>k u. tasks s' k = Some u \<and> k \<notin> dom (tasks s1) \<longrightarrow>
           (\<forall>d \<in> set (Dependencies u). k \<in> set (lookupList (reverseDependencies s') d))"
        unfolding len by blast+
      have n: "tasksCreated (token # rest) (length stack) = 1 + tasksCreated rest (length stack - 1)"
        using False \<open>isOperator token\<close> by simp
      have c1: "taskIDCounter s' = taskIDCounter s + int (tasksCreated (token # rest) (length stack))"
        unfolding n i1 f(2) by simp
      have le: "taskIDCounter s + 1 \<le> taskIDCounter s'" unfolding i1 f(2) by simp
      then have "{taskIDCounter s <.. taskIDCounter s'}
          = insert (taskIDCounter s + 1) {taskIDCounter s + 1 <.. taskIDCounter s'}" by auto
      then have c2: "dom (tasks s') = dom (tasks s) \<union> taskName ` {taskIDCounter s <.. taskIDCounter s'}"
        unfolding i2 f(8) f(2) f(1) by simp
      have m1: "set (lookupList (reverseDependencies s) d)
              \<subseteq> set (lookupList (reverseDependencies s1) d)" for d
        unfolding createTask_dependents[OF c] by simp
      have c3: "\<forall>d. set (lookupList (reverseDependencies s) d)
              \<subseteq> set (lookupList (reverseDependencies s') d)"
        using m1 i3 by blast
      have c4: "\<forall>k u. tasks s' k = Some u \<and> k \<notin> dom (tasks s) \<longrightarrow>
           (\<forall>d \<in> set (Dependencies u). k \<in> set (lookupList (reverseDependencies s') d))"
      proof (intro allI impI ballI)
        fix k u d assume a: "tasks s' k = Some u \<and> k \<notin> dom (tasks s)"
          and d: "d \<in> set (Dependencies u)"
        show "k \<in> set (lookupList (reverseDependencies s') d)"
        proof (cases "k = tid")
          case False
          with a have "k \<notin> dom (tasks s1)" unfolding f(8) by simp
          with i4 a d show ?thesis by blast
        next
          case True
          from createTask_task[OF c] obtain t where t: "tasks s1 tid = Some t"
            "set (Dependencies t) = {?a1, ?a2} \<inter> dom (tasks s)" by blast
          from x t(1) have "tasks s' tid = Some t" unfolding extends_def by blast
          with a True have "u = t" by simp
          with d t(2) have "d \<in> {?a1, ?a2} \<inter> dom (tasks s)" by simp
          then have "tid \<in> set (lookupList (reverseDependencies s1) d)"
            unfolding createTask_dependents[OF c] by simp
          with i3 True show ?thesis by blast
        qed
      qed
      from c1 c2 c3 c4 show ?thesis by blast
    qed
  qed
qed

text \<open>
  Claim C4, as amended.  When \<open>createTasksFromPostfix\<close> fails in a well-formed state
  that holds the expression, the expressions, the completed set and the ready set are
  as before and every task of before is untouched, so no task of the failed build is
  ready.  Nothing is rolled back: the counter has advanced by the number of operators
  that found their two operands before the failure, the tasks named by the numbers in
  between are new and are all in the task map, and each of them is in the
  reverse-dependency entry of each of its dependencies.
\<close>

theorem failed_build_keeps_tasks:
  assumes "wellFormed s" and "exprID \<in> dom (expressions s)"
    and "createTasksFromPostfix exprID postfix keys s = (Some err, s')"
  shows "expressions s' = expressions s \<and> completedTasks s' = completedTasks s
    \<and> readyTasks s' = readyTasks s
    \<and> (\<forall>k u. tasks s k = Some u \<longrightarrow> tasks s' k = Some u)
    \<and> (\<forall>k u. tasks s' k = Some u \<longrightarrow>
          tasks s k = Some u \<or> (k \<notin> dom (tasks s) \<and> ExpressionID u = exprID \<and> k \<notin> readyTasks s'))
    \<and> taskIDCounter s' = taskIDCounter s + int (tasksCreated postfix 0)
    \<and> dom (tasks s') = dom (tasks s) \<union> taskName ` {taskIDCounter s <.. taskIDCounter s'}
    \<and> taskName ` {taskIDCounter s <.. taskIDCounter s'} \<inter> dom (tasks s) = {}
    \<and> (\<forall>k u. tasks s' k = Some u \<and> k \<notin> dom (tasks s) \<longrightarrow>
          (\<forall>d \<in> set (Dependencies u). k \<in> set (lookupList (reverseDependencies s') d)))"
proof -
  obtain res s2 where l: "createTasks_loop exprID postfix [] s = (res, s2)"
    by (metis surj_pair)
  with assms(3) have s2: "s' = s2"
    by (auto simp: createTasksFromPostfix_def split: sum.splits if_splits)
  with createTasks_loop_wellFormed[OF l assms(1,2)] have x: "extends exprID s s'" by simp
  have "readyTasks s' \<subseteq> dom (tasks s)"
    using x assms(1) by (simp add: extends_def wellFormed_def)
  with x have old: "expressions s' = expressions s \<and> completedTasks s' = completedTasks s
    \<and> readyTasks s' = readyTasks s
    \<and> (\<forall>k u. tasks s k = Some u \<longrightarrow> tasks s' k = Some u)
    \<and> (\<forall>k u. tasks s' k = Some u \<longrightarrow>
          tasks s k = Some u \<or> (k \<notin> dom (tasks s) \<and> ExpressionID u = exprID \<and> k \<notin> readyTasks s'))"
    unfolding extends_def by blast
  from createTasks_loop_created[OF l assms(1,2)]
  have new: "taskIDCounter s' = taskIDCounter s + int (tasksCreated postfix 0)
    \<and> dom (tasks s') = dom (tasks s) \<union> taskName ` {taskIDCounter s <.. taskIDCounter s'}
    \<and> (\<forall>k u. tasks s' k = Some u \<and> k \<notin> dom (tasks s) \<longrightarrow>
          (\<forall>d \<in> set (Dependencies u). k \<in> set (lookupList (reverseDependencies s') d)))"
    unfolding s2 by simp
  from assms(1) have kn: "keysNamed s" by (simp add: wellFormed_def)
  have fresh: "taskName ` {taskIDCounter s <.. taskIDCounter s'} \<inter> dom (tasks s) = {}"
  proof (rule ccontr)
    assume "taskName ` {taskIDCounter s <.. taskIDCounter s'} \<inter> dom (tasks s) \<noteq> {}"
    then obtain k where k: "k \<in> taskName ` {taskIDCounter s <.. taskIDCounter s'}"
      "k \<in> dom (tasks s)" by blast
    from k(1) obtain n where "n \<in> {taskIDCounter s <.. taskIDCounter s'}" "k = taskName n" ..
    with k(2) have n: "taskIDCounter s < n" "taskName n \<in> dom (tasks s)" by simp_all
    with kn obtain m where m: "0 < m" "m \<le> taskIDCounter s" "taskName n = taskName m"
      unfolding keysNamed_def by blast
    from kn have "0 \<le> taskIDCounter s" by (simp add: keysNamed_def)
    with n(1) m(1) taskName_inj[OF _ _ m(3)] have "n = m" by simp
    with n(1) m(2) show False by simp
  qed
  show ?thesis using old new fresh by (elim conjE) (intro conjI; assumption)
qed

lemma failing_build:
  "\<exists>s' :: nat Service.
      createTasksFromPostfix ''e1'' [''2'', ''2'', ''*'', ''+''] []
        (withExpression ''e1'' ''2+*2'' Pending (NewService unitTimes))
        = (Some (NotEnoughOperands ''+''), s')
      \<and> dom (tasks s') = {''task_1''}"
  by (simp add: scenario_defs withExpression_def)

text \<open>A build that fails after it has created two tasks, the second depending on the first.\<close>

lemma failing_build_index:
  "\<exists>s' :: nat Service.
      createTasksFromPostfix ''e1'' [''2'', ''2'', ''*'', ''3'', ''+'', ''+''] []
        (withExpression ''e1'' ''2*2+3+'' Pending (NewService unitTimes))
        = (Some (NotEnoughOperands ''+''), s')
      \<and> (\<exists>u. tasks s' ''task_2'' = Some u \<and> Dependencies u = [''task_1''])"
  by (simp add: scenario_defs withExpression_def)

lemma names_upto_2: "taskName ` {0 <.. 2} = {''task_1'', ''task_2''}"
proof -
  have "{0 <.. 2 :: int} = {1, 2}" by auto
  then show ?thesis by (simp add: taskName_1 taskName_2)
qed

text \<open>
  The theorem at the postfix form of \<open>2*2+3+\<close>: the build fails at the last addition
  after it has created the multiplication and the first addition, which stay in the
  task map with the index entry of the multiplication, and the counter stays at 2.
\<close>

theorem failed_build_keeps_tasks_witness:
  "wellFormed (withExpression ''e1'' ''2*2+3+'' Pending (NewService unitTimes :: nat Service))
   \<and> ''e1'' \<in> dom (expressions (withExpression ''e1'' ''2*2+3+'' Pending (NewService unitTimes :: nat Service)))
   \<and> (\<exists>s' :: nat Service.
      createTasksFromPostfix ''e1'' [''2'', ''2'', ''*'', ''3'', ''+'', ''+''] []
        (withExpression ''e1'' ''2*2+3+'' Pending (NewService unitTimes))
        = (Some (NotEnoughOperands ''+''), s')
      \<and> readyTasks s' = {} \<and> completedTasks s' = {}
      \<and> taskIDCounter s' = 2 \<and> dom (tasks s') = {''task_1'', ''task_2''}
      \<and> ''task_2'' \<in> set (lookupList (reverseDependencies s') ''task_1''))"
proof -
  let ?s = "withExpression ''e1'' ''2*2+3+'' Pending (NewService unitTimes :: nat Service)"
  have w: "wellFormed ?s" by (rule wellFormed_withExpression[OF NewService_wellFormed])
  have d: "''e1'' \<in> dom (expressions ?s)" by (simp add: withExpression_def)
  from failing_build_index obtain s' :: "nat Service" and u where
    f: "createTasksFromPostfix ''e1'' [''2'', ''2'', ''*'', ''3'', ''+'', ''+''] [] ?s
        = (Some (NotEnoughOperands ''+''), s')"
    and u: "tasks s' ''task_2'' = Some u" "Dependencies u = [''task_1'']" by blast
  note t = failed_build_keeps_tasks[OF w d f]
  have s0: "readyTasks ?s = {}" "completedTasks ?s = {}" "taskIDCounter ?s = 0"
    "dom (tasks ?s) = {}" by (simp_all add: withExpression_def NewService_def)
  have n: "tasksCreated [''2'', ''2'', ''*'', ''3'', ''+'', ''+''] 0 = 2"
    by (simp add: isOperator_def)
  from t have r: "readyTasks s' = {}" and c: "completedTasks s' = {}"
    unfolding s0 by simp_all
  from t have k: "taskIDCounter s' = 2" unfolding s0 n by simp
  from t have "dom (tasks s') = dom (tasks ?s) \<union> taskName ` {taskIDCounter ?s <.. taskIDCounter s'}"
    by (elim conjE)
  then have m: "dom (tasks s') = {''task_1'', ''task_2''}"
    unfolding s0 k by (simp add: names_upto_2)
  from t have "\<forall>k u. tasks s' k = Some u \<and> k \<notin> dom (tasks ?s) \<longrightarrow>
          (\<forall>d \<in> set (Dependencies u). k \<in> set (lookupList (reverseDependencies s') d))"
    by (elim conjE)
  with u have i: "''task_2'' \<in> set (lookupList (reverseDependencies s') ''task_1'')"
    unfolding s0 by simp
  from f r c k m i have "\<exists>s' :: nat Service.
      createTasksFromPostfix ''e1'' [''2'', ''2'', ''*'', ''3'', ''+'', ''+''] [] ?s
        = (Some (NotEnoughOperands ''+''), s')
      \<and> readyTasks s' = {} \<and> completedTasks s' = {}
      \<and> taskIDCounter s' = 2 \<and> dom (tasks s') = {''task_1'', ''task_2''}
      \<and> ''task_2'' \<in> set (lookupList (reverseDependencies s') ''task_1'')"
    by (intro exI[of _ s'] conjI)
  with w d show ?thesis by (intro conjI)
qed

text \<open>
  Claim C4 as stated fails: the failed build of \<open>2+*2\<close> leaves \<open>task_1\<close> in the task
  map, which was empty before.
\<close>

theorem failed_build_counterexample:
  "\<not> (\<forall>exprID postfix keys (s :: nat Service) err s'.
        createTasksFromPostfix exprID postfix keys s = (Some err, s') \<longrightarrow> s' = s)"
proof
  assume a: "\<forall>exprID postfix keys (s :: nat Service) err s'.
        createTasksFromPostfix exprID postfix keys s = (Some err, s') \<longrightarrow> s' = s"
  from failing_build obtain s' :: "nat Service" where
    f: "createTasksFromPostfix ''e1'' [''2'', ''2'', ''*'', ''+''] []
        (withExpression ''e1'' ''2+*2'' Pending (NewService unitTimes))
        = (Some (NotEnoughOperands ''+''), s')"
    and d: "dom (tasks s') = {''task_1''}" by blast
  from a f have "s' = withExpression ''e1'' ''2+*2'' Pending (NewService unitTimes)" by blast
  with d show False by (simp add: withExpression_def NewService_def)
qed

text \<open>The same through \<open>SubmitExpression\<close>, with the expression recorded as failed.\<close>

lemma failed_submission_keeps_task:
  "\<exists>s' :: nat Service.
      SubmitExpression parseDecimal ''e1'' ''2+*2'' [] (NewService unitTimes)
        = (Inl (NotEnoughOperands ''+''), s')
      \<and> dom (tasks s') = {''task_1''}
      \<and> expressions s' ''e1'' = Some (submitted ''e1'' ''2+*2'' Failed)"
proof -
  have "tokenize ''2+*2'' = Inr [''2'', ''+'', ''*'', ''2'']"
    by (simp add: tokenize_def tokenize_loop.simps(2) byteToString_def isOperator_def Let_def)
  moreover have "shuntingYard parseDecimal [''2'', ''+'', ''*'', ''2'']
      = Inr [''2'', ''2'', ''*'', ''+'']"
    by (simp add: shuntingYard_def isOperator_def popOperators.simps drainOperators.simps
        hasHigherPrecedence_def getPrecedence_def isNumber_def parseDecimal_def isDigit_def)
  ultimately show ?thesis
    by (simp add: scenario_defs submitted_def)
qed
section \<open>Pulls\<close>












lemma reaches_two_pulls:
  "\<exists>s :: nat Service. reaches parseDecimal formatWhole unitTimes
     [Submit ''e1'' ''2+2*2'' [''task_1'', ''task_2''], Pull [''task_1''],
      Record ''task_1'' 4 [''task_1'', ''task_2''], Pull [''task_2''],
      Record ''task_2'' 6 [''task_1'', ''task_2''], Pull []]
     [Submitted (Inr ''e1''),
      Pulled (Some ((multiplicationTask ''e1'' unitTimes)\<lparr> Status := ''processing'' \<rparr>)),
      Recorded None,
      Pulled (Some ((additionTask ''e1'' unitTimes ''4.000000'')\<lparr> Status := ''processing'' \<rparr>)),
      Recorded None,
      Pulled None] s"
  by (simp add: reaches_def scenario_defs compile_2p2m2[OF parseDecimal_symbols parseDecimal_2]
      enumerates_def formatWhole_def digitsOf.simps digitChar_def)


section \<open>The operands of ready tasks\<close>

text \<open>Every operation keeps the invariant of the operands.\<close>

lemma NewService_operands: "operandsResolved parseFloat (NewService times')"
  by (simp add: operandsResolved_def NewService_def)

lemma operandsResolved_ready:
  assumes a: "\<forall>k u. tasks s k = Some u \<longrightarrow>
        (\<forall>a \<in> {Arg1 u, Arg2 u}. isNumber parseFloat a
           \<or> (a \<in> set (Dependencies u) \<and> a \<notin> completedTasks s
               \<and> k \<in> set (lookupList (reverseDependencies s) a)))"
    and u: "tasks s k = Some u" and d: "set (Dependencies u) \<subseteq> completedTasks s"
  shows "isNumber parseFloat (Arg1 u) \<and> isNumber parseFloat (Arg2 u)"
  using a u d by blast

lemma SubmitExpression_operands:
  assumes w: "wellFormed s" and fresh: "id' \<notin> dom (expressions s)"
    and r: "SubmitExpression parseFloat id' e keys s = (r, s')"
    and o: "operandsResolved parseFloat s"
  shows "operandsResolved parseFloat s'"
proof -
  note st = SubmitExpression_state[OF w fresh r]
  have w': "wellFormed s'" by (rule SubmitExpression_wellFormed[OF r w])
  from w have dk: "dependenciesKnown s" and cd: "completedTasks s \<subseteq> dom (tasks s)"
    and rd: "readyTasks s \<subseteq> dom (tasks s)" by (simp_all add: wellFormed_def)
  from st(5) have b1: "\<forall>k \<in> dom (tasks s).
        lookupList (reverseDependencies s') k = lookupList (reverseDependencies s) k"
    and b2: "\<forall>k u. tasks s' k = Some u \<and> k \<notin> dom (tasks s) \<longrightarrow>
           (\<forall>a \<in> {Arg1 u, Arg2 u}. literal parseFloat a
                 \<or> (a \<in> dom (tasks s') - dom (tasks s) \<and> a \<in> set (Dependencies u)
                     \<and> k \<in> set (lookupList (reverseDependencies s') a)))"
    unfolding built_def by blast+
  from o have o1: "\<forall>k u. tasks s k = Some u \<longrightarrow>
        (\<forall>a \<in> {Arg1 u, Arg2 u}. isNumber parseFloat a
           \<or> (a \<in> set (Dependencies u) \<and> a \<notin> completedTasks s
               \<and> k \<in> set (lookupList (reverseDependencies s) a)))"
    and o2: "\<forall>k \<in> readyTasks s. \<forall>u. tasks s k = Some u \<longrightarrow>
           isNumber parseFloat (Arg1 u) \<and> isNumber parseFloat (Arg2 u)"
    by (simp_all add: operandsResolved_def)
  have a: "\<forall>k u. tasks s' k = Some u \<longrightarrow>
        (\<forall>a \<in> {Arg1 u, Arg2 u}. isNumber parseFloat a
           \<or> (a \<in> set (Dependencies u) \<and> a \<notin> completedTasks s'
               \<and> k \<in> set (lookupList (reverseDependencies s') a)))"
  proof (intro allI impI ballI)
    fix k u a assume u: "tasks s' k = Some u" and a: "a \<in> {Arg1 u, Arg2 u}"
    from st(4)[OF u] show "isNumber parseFloat a
           \<or> (a \<in> set (Dependencies u) \<and> a \<notin> completedTasks s'
               \<and> k \<in> set (lookupList (reverseDependencies s') a))"
    proof
      assume old: "tasks s k = Some u"
      with o1 a have "isNumber parseFloat a
           \<or> (a \<in> set (Dependencies u) \<and> a \<notin> completedTasks s
               \<and> k \<in> set (lookupList (reverseDependencies s) a))" by blast
      then show ?thesis
      proof
        assume "isNumber parseFloat a" then show ?thesis by simp
      next
        assume h: "a \<in> set (Dependencies u) \<and> a \<notin> completedTasks s
               \<and> k \<in> set (lookupList (reverseDependencies s) a)"
        with dk old have "a \<in> dom (tasks s)" unfolding dependenciesKnown_def by blast
        with b1 have "lookupList (reverseDependencies s') a = lookupList (reverseDependencies s) a"
          by blast
        with h show ?thesis unfolding st(1) by simp
      qed
    next
      assume "k \<notin> dom (tasks s) \<and> ExpressionID u = id'"
      with b2 u a have "literal parseFloat a
                 \<or> (a \<in> dom (tasks s') - dom (tasks s) \<and> a \<in> set (Dependencies u)
                     \<and> k \<in> set (lookupList (reverseDependencies s') a))" by blast
      then show ?thesis unfolding st(1) using cd by (auto simp: literal_def)
    qed
  qed
  have b: "\<forall>k \<in> readyTasks s'. \<forall>u. tasks s' k = Some u \<longrightarrow>
           isNumber parseFloat (Arg1 u) \<and> isNumber parseFloat (Arg2 u)"
  proof (intro ballI allI impI)
    fix k u assume k: "k \<in> readyTasks s'" and u: "tasks s' k = Some u"
    show "isNumber parseFloat (Arg1 u) \<and> isNumber parseFloat (Arg2 u)"
    proof (cases "k \<in> readyTasks s")
      case True
      with rd st(4)[OF u] have "tasks s k = Some u" by blast
      with o2 True show ?thesis by blast
    next
      case False
      with k st(7)[of k] u have n: "Arg1 u \<notin> dom (tasks s')" "Arg2 u \<notin> dom (tasks s')" by auto
      from w' u have "\<forall>d \<in> set (Dependencies u). d \<in> dom (tasks s')"
        unfolding wellFormed_def dependenciesKnown_def by blast
      with n a u show ?thesis by blast
    qed
  qed
  from a b show ?thesis unfolding operandsResolved_def by blast
qed

lemma processing_operands:
  assumes "operandsResolved parseFloat s" "tasks s k = Some t"
  shows "operandsResolved parseFloat
           (s\<lparr> tasks := (tasks s)(k \<mapsto> t\<lparr> Status := ''processing'' \<rparr>),
              readyTasks := readyTasks s - {k} \<rparr>)"
  using assms unfolding operandsResolved_def by auto

lemma SetTaskResult_operands:
  assumes w: "wellFormed s" and r: "SetTaskResult formatFloat i v keys s = Some (r, s')"
    and o: "operandsResolved parseFloat s" and f: "resultsParse parseFloat formatFloat"
  shows "operandsResolved parseFloat s'"
proof (cases "tasks s i")
  case None
  with r o show ?thesis by (simp add: SetTaskResult_def)
next
  case (Some t)
  note st = SetTaskResult_state[OF w Some r]
  let ?D = "set (lookupList (reverseDependencies s) i)"
  from f have num: "isNumber parseFloat (formatFloat v)" by (simp add: resultsParse_def)
  from o have o1: "\<forall>k u. tasks s k = Some u \<longrightarrow>
        (\<forall>a \<in> {Arg1 u, Arg2 u}. isNumber parseFloat a
           \<or> (a \<in> set (Dependencies u) \<and> a \<notin> completedTasks s
               \<and> k \<in> set (lookupList (reverseDependencies s) a)))"
    and o2: "\<forall>k \<in> readyTasks s. \<forall>u. tasks s k = Some u \<longrightarrow>
           isNumber parseFloat (Arg1 u) \<and> isNumber parseFloat (Arg2 u)"
    by (simp_all add: operandsResolved_def)
  have one: "isNumber parseFloat a'
           \<or> (a' \<in> set (Dependencies u) \<and> a' \<notin> insert i (completedTasks s)
               \<and> k \<in> set (lookupList (reverseDependencies s) a'))"
    if u: "tasks s k = Some u" and a: "a \<in> {Arg1 u, Arg2 u}"
      and a': "a' = (if k \<in> ?D \<and> a = i then formatFloat v else a)" for k u a a'
  proof (cases "k \<in> ?D \<and> a = i")
    case True
    with a' num show ?thesis by simp
  next
    case False
    with a' have e: "a' = a" by simp
    from o1 u a have "isNumber parseFloat a
           \<or> (a \<in> set (Dependencies u) \<and> a \<notin> completedTasks s
               \<and> k \<in> set (lookupList (reverseDependencies s) a))" by blast
    then show ?thesis unfolding e using False by auto
  qed
  have a: "\<forall>k u'. tasks s' k = Some u' \<longrightarrow>
        (\<forall>a \<in> {Arg1 u', Arg2 u'}. isNumber parseFloat a
           \<or> (a \<in> set (Dependencies u') \<and> a \<notin> completedTasks s'
               \<and> k \<in> set (lookupList (reverseDependencies s') a)))"
  proof (intro allI impI ballI)
    fix k u' a' assume u': "tasks s' k = Some u'" and a': "a' \<in> {Arg1 u', Arg2 u'}"
    from st(7)[OF u'] obtain u where u: "tasks s k = Some u" "Dependencies u' = Dependencies u"
      "Arg1 u' = (if k \<in> ?D \<and> Arg1 u = i then formatFloat v else Arg1 u)"
      "Arg2 u' = (if k \<in> ?D \<and> Arg2 u = i then formatFloat v else Arg2 u)" by blast
    from a' consider "a' = Arg1 u'" | "a' = Arg2 u'" by blast
    then show "isNumber parseFloat a'
           \<or> (a' \<in> set (Dependencies u') \<and> a' \<notin> completedTasks s'
               \<and> k \<in> set (lookupList (reverseDependencies s') a'))"
    proof cases
      case 1
      from one[OF u(1), of "Arg1 u" a'] 1 u(3) show ?thesis unfolding st(2) st(4) u(2) by simp
    next
      case 2
      from one[OF u(1), of "Arg2 u" a'] 2 u(4) show ?thesis unfolding st(2) st(4) u(2) by simp
    qed
  qed
  have b: "\<forall>k \<in> readyTasks s'. \<forall>u'. tasks s' k = Some u' \<longrightarrow>
           isNumber parseFloat (Arg1 u') \<and> isNumber parseFloat (Arg2 u')"
  proof (intro ballI allI impI)
    fix k u' assume k: "k \<in> readyTasks s'" and u': "tasks s' k = Some u'"
    from st(7)[OF u'] obtain u where u: "tasks s k = Some u" "Dependencies u' = Dependencies u"
      "Arg1 u' = (if k \<in> ?D \<and> Arg1 u = i then formatFloat v else Arg1 u)"
      "Arg2 u' = (if k \<in> ?D \<and> Arg2 u = i then formatFloat v else Arg2 u)" by blast
    from k consider "k \<in> readyTasks s"
      | "set (Dependencies u) \<subseteq> insert i (completedTasks s)"
      unfolding st(3) using u(1) by auto
    then show "isNumber parseFloat (Arg1 u') \<and> isNumber parseFloat (Arg2 u')"
    proof cases
      case 1
      with o2 u(1) have "isNumber parseFloat (Arg1 u) \<and> isNumber parseFloat (Arg2 u)" by blast
      with num show ?thesis unfolding u(3,4) by simp
    next
      case 2
      then have "set (Dependencies u') \<subseteq> completedTasks s'" unfolding st(2) u(2) .
      from operandsResolved_ready[OF a u' this] show ?thesis .
    qed
  qed
  from a b show ?thesis unfolding operandsResolved_def by blast
qed

lemma run_operands:
  "wellFormed s \<Longrightarrow> operandsResolved parseFloat s
   \<Longrightarrow> resultsParse parseFloat formatFloat
   \<Longrightarrow> admissibleRun parseFloat formatFloat operations s
   \<Longrightarrow> run parseFloat formatFloat operations s = Some (rs, s')
   \<Longrightarrow> operandsResolved parseFloat s'
       \<and> (\<forall>t. Pulled (Some t) \<in> set rs \<longrightarrow>
             isNumber parseFloat (Arg1 t) \<and> isNumber parseFloat (Arg2 t))"
proof (induction operations arbitrary: s rs)
  case Nil
  then show ?case by simp
next
  case (Cons operation rest)
  from Cons.prems(4) have adm: "admissible parseFloat operation s" by simp
  from step_wellFormed[OF Cons.prems(1) adm, of formatFloat] obtain r s1 where
    st: "step parseFloat formatFloat operation s = Some (r, s1)" and w1: "wellFormed s1" by blast
  from Cons.prems(4) st have adm1: "admissibleRun parseFloat formatFloat rest s1" by simp
  from Cons.prems(5) st obtain rs1 where
    run1: "run parseFloat formatFloat rest s1 = Some (rs1, s')" and rs: "rs = r # rs1"
    by (auto split: option.splits)
  show ?case
  proof (cases operation)
    case (Submit id' e keys)
    with st obtain r0 where sub: "SubmitExpression parseFloat id' e keys s = (r0, s1)"
      and r: "r = Submitted r0" by (auto split: prod.splits)
    from adm Submit have fresh: "id' \<notin> dom (expressions s)" by simp
    note o1 = SubmitExpression_operands[OF Cons.prems(1) fresh sub Cons.prems(2)]
    from Cons.IH[OF w1 o1 Cons.prems(3) adm1 run1] show ?thesis by (simp add: rs r)
  next
    case (Pull keys)
    with adm Cons.prems(1) have e: "enumerates keys (readyTasks s)"
      and rd: "readyTasks s \<subseteq> dom (tasks s)" by (simp_all add: wellFormed_def)
    from e rd show ?thesis
    proof (cases rule: GetTask_cases)
      case none
      with st Pull have "r = Pulled None" "s1 = s" by simp_all
      with Cons.IH[OF Cons.prems(1,2,3)] adm1 run1 show ?thesis by (simp add: rs)
    next
      case (pulled k t)
      let ?s1 = "s\<lparr> tasks := (tasks s)(k \<mapsto> t\<lparr> Status := ''processing'' \<rparr>),
                readyTasks := readyTasks s - {k} \<rparr>"
      from pulled(3) st Pull have r: "r = Pulled (Some (t\<lparr> Status := ''processing'' \<rparr>))"
        and s1: "s1 = ?s1" by simp_all
      from Cons.prems(2) pulled(1,2) have n: "isNumber parseFloat (Arg1 t)"
        "isNumber parseFloat (Arg2 t)" unfolding operandsResolved_def by blast+
      note o1 = processing_operands[OF Cons.prems(2) pulled(2)]
      from Cons.IH[OF w1[unfolded s1] o1 Cons.prems(3) adm1[unfolded s1] run1[unfolded s1]] n
      show ?thesis by (auto simp: rs r)
    qed
  next
    case (Record i v keys)
    with st obtain r0 where set: "SetTaskResult formatFloat i v keys s = Some (r0, s1)"
      and r: "r = Recorded r0" by (auto split: option.splits)
    note o1 = SetTaskResult_operands[OF Cons.prems(1) set Cons.prems(2,3)]
    from Cons.IH[OF w1 o1 Cons.prems(3) adm1 run1] show ?thesis by (simp add: rs r)
  qed
qed

text \<open>The reference parser and the reference \<open>%f\<close> text meet the two conditions.\<close>

lemma isDigit_digitChar: "d < 10 \<Longrightarrow> isDigit (digitChar d)"
proof -
  assume "d < 10"
  then have "d < length ''0123456789''" by simp
  then have "''0123456789'' ! d \<in> set ''0123456789''" by (rule nth_mem)
  then show ?thesis unfolding isDigit_def digitChar_def .
qed

lemma digitsOf_digits: "list_all isDigit (digitsOf n)"
proof (induction n rule: digitsOf.induct)
  case (1 n)
  show ?case
  proof (cases "n < 10")
    case True
    then show ?thesis by (subst digitsOf.simps) (simp add: isDigit_digitChar)
  next
    case False
    with 1 have "list_all isDigit (digitsOf (n div 10))" by simp
    with False show ?thesis by (subst digitsOf.simps) (simp add: isDigit_digitChar)
  qed
qed

lemma parseDecimal_formatWhole: "resultsParse parseDecimal formatWhole"
proof -
  have "isNumber parseDecimal (formatWhole n)" for n
  proof -
    have d: "\<forall>c \<in> set (digitsOf n). isDigit c" using digitsOf_digits[of n]
      by (simp add: list_all_iff)
    have p: "\<not> isDigit CHR ''.''" by (simp add: isDigit_def)
    have t: "takeWhile isDigit (digitsOf n @ ''.000000'') = digitsOf n"
      using d p by (simp add: takeWhile_append2)
    have r: "dropWhile isDigit (digitsOf n @ ''.000000'') = ''.000000''"
      using d p by (simp add: dropWhile_append2)
    show ?thesis unfolding isNumber_def parseDecimal_def formatWhole_def t r
      by (simp add: isDigit_def digitsOf_nonempty)
  qed
  then show ?thesis by (simp add: resultsParse_def)
qed

lemma parseDecimal_taskName: "namesRejected parseDecimal"
  by (simp add: namesRejected_def isNumber_def parseDecimal_def taskName_def isDigit_def)

lemma keysNamed_names: "keysNamed s \<Longrightarrow> dom (tasks s) \<subseteq> range taskName"
  unfolding keysNamed_def by blast

text \<open>
  Claim C10.  In every state that a run of submissions, pulls and recorded results
  reaches from the start of the service, both operands of every task of the ready set
  parse as numbers, and so do both operands of every task that a pull of the run has
  returned, provided the \<open>%f\<close> text of every result parses as a number.  When the
  parser rejects the names of the tasks, no operand of a pulled task is the identifier
  of a task.
\<close>

theorem ready_operands_numeric:
  assumes "reaches parseFloat formatFloat times' operations responses s"
    and "resultsParse parseFloat formatFloat"
  shows "(\<forall>k \<in> readyTasks s. \<exists>t. tasks s k = Some t
            \<and> isNumber parseFloat (Arg1 t) \<and> isNumber parseFloat (Arg2 t))
       \<and> (\<forall>t. Pulled (Some t) \<in> set responses \<longrightarrow>
            isNumber parseFloat (Arg1 t) \<and> isNumber parseFloat (Arg2 t)
            \<and> (namesRejected parseFloat \<longrightarrow>
                 Arg1 t \<notin> dom (tasks s) \<and> Arg2 t \<notin> dom (tasks s)))"
proof -
  from assms(1) have a: "admissibleRun parseFloat formatFloat operations (NewService times')"
    and r: "run parseFloat formatFloat operations (NewService times') = Some (responses, s)"
    by (simp_all add: reaches_def)
  from run_operands[OF NewService_wellFormed NewService_operands assms(2) a r]
  have o: "operandsResolved parseFloat s"
    and p: "\<forall>t. Pulled (Some t) \<in> set responses \<longrightarrow>
             isNumber parseFloat (Arg1 t) \<and> isNumber parseFloat (Arg2 t)" by blast+
  from reaches_wellFormed[OF assms(1)] have rd: "readyTasks s \<subseteq> dom (tasks s)"
    and kn: "keysNamed s" by (simp_all add: wellFormed_def)
  from keysNamed_names[OF kn] have nm: "namesRejected parseFloat \<Longrightarrow> isNumber parseFloat x
      \<Longrightarrow> x \<notin> dom (tasks s)" for x unfolding namesRejected_def by blast
  have "\<forall>k \<in> readyTasks s. \<exists>t. tasks s k = Some t
            \<and> isNumber parseFloat (Arg1 t) \<and> isNumber parseFloat (Arg2 t)"
    using o rd unfolding operandsResolved_def by blast
  moreover have "\<forall>t. Pulled (Some t) \<in> set responses \<longrightarrow>
            isNumber parseFloat (Arg1 t) \<and> isNumber parseFloat (Arg2 t)
            \<and> (namesRejected parseFloat \<longrightarrow>
                 Arg1 t \<notin> dom (tasks s) \<and> Arg2 t \<notin> dom (tasks s))"
    using p nm by blast
  ultimately show ?thesis by blast
qed

text \<open>
  The theorem at the run of \<open>2+2*2\<close>: the addition is pulled with the operands
  \<open>2\<close> and \<open>4.000000\<close>.
\<close>

theorem ready_operands_numeric_witness:
  "\<exists>s :: nat Service. reaches parseDecimal formatWhole unitTimes
     [Submit ''e1'' ''2+2*2'' [''task_1'', ''task_2''], Pull [''task_1''],
      Record ''task_1'' 4 [''task_1'', ''task_2''], Pull [''task_2''],
      Record ''task_2'' 6 [''task_1'', ''task_2''], Pull []]
     [Submitted (Inr ''e1''),
      Pulled (Some ((multiplicationTask ''e1'' unitTimes)\<lparr> Status := ''processing'' \<rparr>)),
      Recorded None,
      Pulled (Some ((additionTask ''e1'' unitTimes ''4.000000'')\<lparr> Status := ''processing'' \<rparr>)),
      Recorded None,
      Pulled None] s
   \<and> resultsParse parseDecimal formatWhole \<and> namesRejected parseDecimal
   \<and> isNumber parseDecimal ''2'' \<and> isNumber parseDecimal ''4.000000''
   \<and> ''2'' \<notin> dom (tasks s) \<and> ''4.000000'' \<notin> dom (tasks s)"
proof -
  from reaches_two_pulls obtain s :: "nat Service" where
    r: "reaches parseDecimal formatWhole unitTimes
     [Submit ''e1'' ''2+2*2'' [''task_1'', ''task_2''], Pull [''task_1''],
      Record ''task_1'' 4 [''task_1'', ''task_2''], Pull [''task_2''],
      Record ''task_2'' 6 [''task_1'', ''task_2''], Pull []]
     [Submitted (Inr ''e1''),
      Pulled (Some ((multiplicationTask ''e1'' unitTimes)\<lparr> Status := ''processing'' \<rparr>)),
      Recorded None,
      Pulled (Some ((additionTask ''e1'' unitTimes ''4.000000'')\<lparr> Status := ''processing'' \<rparr>)),
      Recorded None,
      Pulled None] s" by blast
  from ready_operands_numeric[OF r parseDecimal_formatWhole]
  have "\<forall>t :: nat Task. Pulled (Some t) \<in> set [Submitted (Inr ''e1''),
      Pulled (Some ((multiplicationTask ''e1'' unitTimes)\<lparr> Status := ''processing'' \<rparr>)),
      Recorded None,
      Pulled (Some ((additionTask ''e1'' unitTimes ''4.000000'')\<lparr> Status := ''processing'' \<rparr>)),
      Recorded None,
      Pulled None] \<longrightarrow>
            isNumber parseDecimal (Arg1 t) \<and> isNumber parseDecimal (Arg2 t)
            \<and> (namesRejected parseDecimal \<longrightarrow>
                 Arg1 t \<notin> dom (tasks s) \<and> Arg2 t \<notin> dom (tasks s))" by (rule conjunct2)
  then have "(isNumber parseDecimal ''2'' \<and> isNumber parseDecimal ''4.000000'')
     \<and> (namesRejected parseDecimal \<longrightarrow>
          ''2'' \<notin> dom (tasks s) \<and> ''4.000000'' \<notin> dom (tasks s))"
    by (rule allE[where x = "(additionTask ''e1'' unitTimes ''4.000000'' :: nat Task)\<lparr> Status := ''processing'' \<rparr>"])
      (simp add: additionTask_def)
  with parseDecimal_taskName have "isNumber parseDecimal ''2'' \<and> isNumber parseDecimal ''4.000000''
     \<and> ''2'' \<notin> dom (tasks s) \<and> ''4.000000'' \<notin> dom (tasks s)"
    by simp
  with r parseDecimal_formatWhole parseDecimal_taskName show ?thesis by blast
qed

section \<open>The status of an expression\<close>

text \<open>
  The loop of \<open>updateExpressionStatus\<close>: its first variable ends true exactly when
  every task of the expression among the keys has a result, and then its second
  variable ends with the result of a root among the keys, if there is one.
\<close>

lemma expressionStatus_loop_all:
  "fst (expressionStatus_loop e keys s (a, f)) \<longleftrightarrow>
     a \<and> (\<forall>k \<in> set keys. \<forall>t. tasks s k = Some t \<and> ExpressionID t = e \<longrightarrow> Result t \<noteq> None)"
proof (induction keys arbitrary: f)
  case Nil
  then show ?case by simp
next
  case (Cons k keys)
  show ?case
  proof (cases "tasks s k")
    case None
    with Cons[of f] show ?thesis by simp
  next
    case (Some t)
    show ?thesis
    proof (cases "ExpressionID t = e")
      case False
      with Some Cons[of f] show ?thesis by simp
    next
      case True
      show ?thesis
      proof (cases "Result t")
        case None
        with Some True show ?thesis by simp
      next
        case (Some v)
        with \<open>tasks s k = Some t\<close> True Cons[of f] Cons[of "Some v"] show ?thesis by simp
      qed
    qed
  qed
qed

lemma expressionStatus_loop_final:
  assumes "\<forall>k \<in> set keys. \<forall>t. tasks s k = Some t \<and> ExpressionID t = e \<longrightarrow> Result t \<noteq> None"
  shows "(snd (expressionStatus_loop e keys s (a, f)) = f \<and> set keys \<inter> rootsOf s e = {})
       \<or> (\<exists>k \<in> set keys \<inter> rootsOf s e.
             snd (expressionStatus_loop e keys s (a, f)) = resultOf s k)"
  using assms
proof (induction keys arbitrary: f)
  case Nil
  then show ?case by simp
next
  case (Cons k keys)
  from Cons.prems have rest: "\<forall>k \<in> set keys. \<forall>t. tasks s k = Some t \<and> ExpressionID t = e
      \<longrightarrow> Result t \<noteq> None" by simp
  note ih = Cons.IH[OF rest]
  show ?case
  proof (cases "tasks s k")
    case None
    then have n: "k \<notin> rootsOf s e" by (simp add: rootsOf_def tasksOf_def)
    from None have "expressionStatus_loop e (k # keys) s (a, f) = expressionStatus_loop e keys s (a, f)"
      by simp
    with ih[of f] n show ?thesis by auto
  next
    case (Some t)
    show ?thesis
    proof (cases "ExpressionID t = e")
      case False
      with Some have n: "k \<notin> rootsOf s e" by (simp add: rootsOf_def tasksOf_def)
      from Some False
      have "expressionStatus_loop e (k # keys) s (a, f) = expressionStatus_loop e keys s (a, f)"
        by simp
      with ih[of f] n show ?thesis by auto
    next
      case True
      with Some Cons.prems obtain v where v: "Result t = Some v" by auto
      show ?thesis
      proof (cases "length (lookupList (reverseDependencies s) k) = 0")
        case False
        with Some have n: "k \<notin> rootsOf s e" by (simp add: rootsOf_def)
        from Some True v False
        have "expressionStatus_loop e (k # keys) s (a, f) = expressionStatus_loop e keys s (a, f)"
          by simp
        with ih[of f] n show ?thesis by auto
      next
        case root: True
        with Some True have k: "k \<in> rootsOf s e" by (simp add: rootsOf_def tasksOf_def)
        from Some v have res: "resultOf s k = Some v" by (simp add: resultOf_def)
        from Some True v root
        have eq: "expressionStatus_loop e (k # keys) s (a, f)
            = expressionStatus_loop e keys s (a, Some v)" by simp
        from ih[of "Some v"] show ?thesis
        proof
          assume "snd (expressionStatus_loop e keys s (a, Some v)) = Some v
              \<and> set keys \<inter> rootsOf s e = {}"
          with eq res k have "k \<in> set (k # keys) \<inter> rootsOf s e"
            "snd (expressionStatus_loop e (k # keys) s (a, f)) = resultOf s k" by simp_all
          then show ?thesis by blast
        next
          assume "\<exists>k' \<in> set keys \<inter> rootsOf s e.
             snd (expressionStatus_loop e keys s (a, Some v)) = resultOf s k'"
          then obtain k' where "k' \<in> set keys \<inter> rootsOf s e"
            "snd (expressionStatus_loop e keys s (a, Some v)) = resultOf s k'" by blast
          with eq have "k' \<in> set (k # keys) \<inter> rootsOf s e"
            "snd (expressionStatus_loop e (k # keys) s (a, f)) = resultOf s k'" by simp_all
          then show ?thesis by blast
        qed
      qed
    qed
  qed
qed

lemma allRecorded_iff:
  "allRecorded s e \<longleftrightarrow> (\<forall>k t. tasks s k = Some t \<and> ExpressionID t = e \<longrightarrow> Result t \<noteq> None)"
  unfolding allRecorded_def tasksOf_def resultOf_def by (auto split: option.splits)

lemma rootsOf_tasks: "rootsOf s e \<subseteq> tasksOf s e"
  by (auto simp: rootsOf_def)

lemma tasksOf_dom: "tasksOf s e \<subseteq> dom (tasks s)"
  by (auto simp: tasksOf_def)

text \<open>What \<open>updateExpressionStatus\<close> does when its loop ranges over all the tasks.\<close>

lemma updateExpressionStatus_result:
  assumes keys: "set keys = dom (tasks s)" and x: "expressions s e = Some x"
  shows "allRecorded s e \<and> rootsOf s e \<noteq> {} \<Longrightarrow>
           \<exists>k \<in> rootsOf s e. updateExpressionStatus e keys s =
             Some (s\<lparr> expressions := (expressions s)(e \<mapsto>
               x\<lparr> ExpressionData.Status := Completed, ExpressionData.Result := resultOf s k \<rparr>) \<rparr>)"
    and "\<not> (allRecorded s e \<and> rootsOf s e \<noteq> {}) \<Longrightarrow> updateExpressionStatus e keys s = Some s"
proof -
  have all: "fst (expressionStatus_loop e keys s (True, None)) \<longleftrightarrow> allRecorded s e"
    unfolding expressionStatus_loop_all allRecorded_iff keys by auto
  have roots: "set keys \<inter> rootsOf s e = rootsOf s e"
    using rootsOf_tasks[of s e] tasksOf_dom[of s e] keys by blast
  {
    assume a: "allRecorded s e \<and> rootsOf s e \<noteq> {}"
    then have "\<forall>k \<in> set keys. \<forall>t. tasks s k = Some t \<and> ExpressionID t = e \<longrightarrow> Result t \<noteq> None"
      unfolding allRecorded_iff by blast
    from expressionStatus_loop_final[OF this, of True None] a
    obtain k where k: "k \<in> rootsOf s e"
      "snd (expressionStatus_loop e keys s (True, None)) = resultOf s k"
      unfolding roots by blast
    from k(1) a rootsOf_tasks[of s e] have "resultOf s k \<noteq> None"
      unfolding allRecorded_def by blast
    then obtain v where v: "resultOf s k = Some v" by blast
    from all a k(2) v have "expressionStatus_loop e keys s (True, None) = (True, Some v)"
      by (cases "expressionStatus_loop e keys s (True, None)") simp
    with x v have "updateExpressionStatus e keys s =
             Some (s\<lparr> expressions := (expressions s)(e \<mapsto>
               x\<lparr> ExpressionData.Status := Completed, ExpressionData.Result := resultOf s k \<rparr>) \<rparr>)"
      by (simp add: updateExpressionStatus_def)
    with k(1) show "\<exists>k \<in> rootsOf s e. updateExpressionStatus e keys s =
             Some (s\<lparr> expressions := (expressions s)(e \<mapsto>
               x\<lparr> ExpressionData.Status := Completed, ExpressionData.Result := resultOf s k \<rparr>) \<rparr>)"
      by blast
  }
  {
    assume n: "\<not> (allRecorded s e \<and> rootsOf s e \<noteq> {})"
    show "updateExpressionStatus e keys s = Some s"
    proof (cases "allRecorded s e")
      case False
      with all have "\<not> fst (expressionStatus_loop e keys s (True, None))" by simp
      then show ?thesis
        by (cases "expressionStatus_loop e keys s (True, None)")
           (simp add: updateExpressionStatus_def)
    next
      case True
      with n have e: "rootsOf s e = {}" by simp
      from True have "\<forall>k \<in> set keys. \<forall>t. tasks s k = Some t \<and> ExpressionID t = e
          \<longrightarrow> Result t \<noteq> None" unfolding allRecorded_iff by blast
      from expressionStatus_loop_final[OF this, of True None]
      have "snd (expressionStatus_loop e keys s (True, None)) = None"
        unfolding roots e by simp
      then show ?thesis
        by (cases "expressionStatus_loop e keys s (True, None)")
           (simp add: updateExpressionStatus_def)
    qed
  }
qed

text \<open>The task that the counter names has no dependents, and a build keeps it so.\<close>

lemma index_key_is_task:
  assumes "wellFormed s" "lookupList (reverseDependencies s) d \<noteq> []"
  shows "d \<in> dom (tasks s)"
proof -
  from assms(2) obtain k where "k \<in> set (lookupList (reverseDependencies s) d)"
    by (cases "lookupList (reverseDependencies s) d") auto
  with assms(1) obtain t where "tasks s k = Some t" "d \<in> set (Dependencies t)"
    unfolding wellFormed_def dependentsKnown_def by blast
  with assms(1) show ?thesis unfolding wellFormed_def dependenciesKnown_def by blast
qed

lemma keysNamed_above:
  assumes "keysNamed s" "taskIDCounter s < n"
  shows "taskName n \<notin> dom (tasks s)"
proof
  assume "taskName n \<in> dom (tasks s)"
  with assms(1) obtain m where m: "0 < m" "m \<le> taskIDCounter s" "taskName n = taskName m"
    unfolding keysNamed_def by blast
  from assms(1) have "0 \<le> taskIDCounter s" by (simp add: keysNamed_def)
  with assms(2) m(1) taskName_inj[OF _ _ m(3)] have "n = m" by simp
  with assms(2) m(2) show False by simp
qed

lemma createTask_lastRoot:
  assumes c: "createTask e a1 a2 operation s = (tid, s')" and w: "wellFormed s"
  shows "lastRoot s'"
proof -
  note f = createTask_frame[OF c]
  from w have k: "keysNamed s" by (simp add: wellFormed_def)
  have fresh: "tid \<notin> dom (tasks s)" using keysNamed_fresh[OF k] f(1) by simp
  with index_key_is_task[OF w, of tid] have "lookupList (reverseDependencies s) tid = []"
    by blast
  with fresh have "set (lookupList (reverseDependencies s') tid) = {}"
    unfolding createTask_dependents[OF c] by simp
  then show ?thesis unfolding lastRoot_def f(2) f(1)[symmetric] by simp
qed

lemma createTasks_loop_lastRoot:
  "createTasks_loop e toks stack s = (r, s') \<Longrightarrow> wellFormed s \<Longrightarrow> e \<in> dom (expressions s)
     \<Longrightarrow> lastRoot s \<Longrightarrow> lastRoot s'"
proof (induction toks arbitrary: stack s)
  case Nil
  then show ?case by simp
next
  case (Cons token rest)
  show ?case
  proof (cases "isOperator token")
    case False
    with Cons.prems(1) have "createTasks_loop e rest (stack @ [token]) s = (r, s')" by simp
    from Cons.IH[OF this Cons.prems(2,3,4)] show ?thesis .
  next
    case True
    show ?thesis
    proof (cases "length stack < 2")
      case True
      with \<open>isOperator token\<close> Cons.prems show ?thesis by simp
    next
      case False
      obtain tid s1 where c: "createTask e (stack ! (length stack - 2)) (stack ! (length stack - 1)) token s = (tid, s1)"
        by (metis surj_pair)
      with False \<open>isOperator token\<close> Cons.prems(1)
      have l: "createTasks_loop e rest (take (length stack - 2) stack @ [tid]) s1 = (r, s')"
        by (simp add: Let_def)
      have w1: "wellFormed s1" by (rule createTask_wellFormed[OF c Cons.prems(2,3)])
      have e1: "e \<in> dom (expressions s1)"
        using Cons.prems(3) unfolding createTask_frame(3)[OF c] .
      from Cons.IH[OF l w1 e1 createTask_lastRoot[OF c Cons.prems(2)]] show ?thesis .
    qed
  qed
qed

lemma in_take_below_top:
  assumes "2 \<le> length xs" "k \<in> set xs" "k \<noteq> xs ! (length xs - 1)" "k \<noteq> xs ! (length xs - 2)"
  shows "k \<in> set (take (length xs - 2) xs)"
proof -
  from assms(2) obtain i where i: "i < length xs" "xs ! i = k" by (auto simp: in_set_conv_nth)
  with assms(3,4) have "i \<noteq> length xs - 1" "i \<noteq> length xs - 2" by auto
  with i(1) have "i < length xs - 2" by arith
  then have "take (length xs - 2) xs ! i = xs ! i" "i < length (take (length xs - 2) xs)"
    by simp_all
  with i(2) show ?thesis by (metis nth_mem)
qed

text \<open>
  During a build the new tasks without dependents are on the stack, so that a build
  which ends with one value on the stack leaves at most one new root.
\<close>

lemma createTasks_loop_roots:
  "createTasks_loop e toks stack s = (Inr stack', s') \<Longrightarrow> wellFormed s
   \<Longrightarrow> e \<in> dom (expressions s) \<Longrightarrow> dom (tasks s0) \<subseteq> dom (tasks s)
   \<Longrightarrow> \<forall>k \<in> dom (tasks s) - dom (tasks s0).
          lookupList (reverseDependencies s) k = [] \<longrightarrow> k \<in> set stack
   \<Longrightarrow> \<forall>k \<in> dom (tasks s') - dom (tasks s0).
          lookupList (reverseDependencies s') k = [] \<longrightarrow> k \<in> set stack'"
proof (induction toks arbitrary: stack s)
  case Nil
  then show ?case by simp
next
  case (Cons token rest)
  show ?case
  proof (cases "isOperator token")
    case False
    with Cons.prems(1) have l: "createTasks_loop e rest (stack @ [token]) s = (Inr stack', s')"
      by simp
    from Cons.prems(5) have "\<forall>k \<in> dom (tasks s) - dom (tasks s0).
          lookupList (reverseDependencies s) k = [] \<longrightarrow> k \<in> set (stack @ [token])" by simp
    from Cons.IH[OF l Cons.prems(2,3,4) this] show ?thesis .
  next
    case True
    show ?thesis
    proof (cases "length stack < 2")
      case True
      with \<open>isOperator token\<close> Cons.prems(1) show ?thesis by simp
    next
      case False
      let ?a1 = "stack ! (length stack - 2)" and ?a2 = "stack ! (length stack - 1)"
      obtain tid s1 where c: "createTask e ?a1 ?a2 token s = (tid, s1)"
        by (metis surj_pair)
      with False \<open>isOperator token\<close> Cons.prems(1)
      have l: "createTasks_loop e rest (take (length stack - 2) stack @ [tid]) s1 = (Inr stack', s')"
        by (simp add: Let_def)
      note f = createTask_frame[OF c]
      have w1: "wellFormed s1" by (rule createTask_wellFormed[OF c Cons.prems(2,3)])
      have e1: "e \<in> dom (expressions s1)" using Cons.prems(3) unfolding f(3) .
      have d1: "dom (tasks s0) \<subseteq> dom (tasks s1)" using Cons.prems(4) unfolding f(8) by blast
      have "\<forall>k \<in> dom (tasks s1) - dom (tasks s0).
          lookupList (reverseDependencies s1) k = []
            \<longrightarrow> k \<in> set (take (length stack - 2) stack @ [tid])"
      proof (intro ballI impI)
        fix k assume k: "k \<in> dom (tasks s1) - dom (tasks s0)"
          and r: "lookupList (reverseDependencies s1) k = []"
        show "k \<in> set (take (length stack - 2) stack @ [tid])"
        proof (cases "k = tid")
          case True
          then show ?thesis by simp
        next
          case False
          with k have kd: "k \<in> dom (tasks s) - dom (tasks s0)" unfolding f(8) by simp
          from r have "set (lookupList (reverseDependencies s1) k) = {}" by simp
          then have e: "set (lookupList (reverseDependencies s) k) = {}"
            and n: "k \<notin> {?a1, ?a2} \<inter> dom (tasks s)"
            unfolding createTask_dependents[OF c] by (simp_all split: if_splits)
          from e kd Cons.prems(5) have "k \<in> set stack" by simp
          moreover from n kd have "k \<noteq> ?a2" "k \<noteq> ?a1" by auto
          moreover from \<open>\<not> length stack < 2\<close> have "2 \<le> length stack" by simp
          ultimately have "k \<in> set (take (length stack - 2) stack)"
            using in_take_below_top[of stack k] by blast
          then show ?thesis by simp
        qed
      qed
      from Cons.IH[OF l w1 e1 d1 this] show ?thesis .
    qed
  qed
qed

lemma withExpression_fields:
  "tasks (withExpression i text st s) = tasks s"
  "reverseDependencies (withExpression i text st s) = reverseDependencies s"
  "taskIDCounter (withExpression i text st s) = taskIDCounter s"
  by (simp_all add: withExpression_def)

lemma markReady_fields:
  "tasks (markReady e keys s) = tasks s"
  "reverseDependencies (markReady e keys s) = reverseDependencies s"
  "taskIDCounter (markReady e keys s) = taskIDCounter s"
  by (simp_all add: markReady_eq)

lemma tasksOf_unknown:
  assumes "wellFormed s" "e \<notin> dom (expressions s)"
  shows "tasksOf s e = {}"
  using assms unfolding wellFormed_def expressionsKnown_def tasksOf_def by blast

text \<open>What a submission leaves of the roots.\<close>

lemma SubmitExpression_roots:
  assumes w: "wellFormed s" and fresh: "id' \<notin> dom (expressions s)"
    and r: "SubmitExpression parseFloat id' e keys s = (r, s')" and l: "lastRoot s"
  shows "lastRoot s'"
    and "tasksOf s' id' \<noteq> {} \<Longrightarrow> rootsOf s' id' \<noteq> {}"
    and "r = Inr i \<Longrightarrow> \<forall>k \<in> rootsOf s' id'. \<forall>k' \<in> rootsOf s' id'. k = k'"
proof -
  let ?s1 = "withExpression id' (stripSpaces e) Pending s"
  have w1: "wellFormed ?s1" using w by (rule wellFormed_withExpression)
  have d1: "id' \<in> dom (expressions ?s1)" by (simp add: withExpression_def)
  have l1: "lastRoot ?s1" using l by (simp add: lastRoot_def withExpression_fields)
  have none: "tasksOf s id' = {}" by (rule tasksOf_unknown[OF w fresh])
  have new: "tasksOf s' id' \<inter> dom (tasks s) = {}"
  proof (rule ccontr)
    assume "tasksOf s' id' \<inter> dom (tasks s) \<noteq> {}"
    then obtain k t u where "tasks s' k = Some t" "ExpressionID t = id'" "tasks s k = Some u"
      unfolding tasksOf_def by blast
    with SubmitExpression_state(3)[OF w fresh r, of k u] have "k \<in> tasksOf s id'"
      unfolding tasksOf_def by simp
    with none show False by simp
  qed
  have common: "lastRoot s' \<and> (tasksOf s' id' \<noteq> {} \<longrightarrow> rootsOf s' id' \<noteq> {})"
    if loop: "createTasks_loop id' postfix [] ?s1 = (res, s2)"
      and t: "tasks s' = tasks s2" and v: "reverseDependencies s' = reverseDependencies s2"
      and c: "taskIDCounter s' = taskIDCounter s2" for postfix res s2
  proof -
    from createTasks_loop_lastRoot[OF loop w1 d1 l1] have l2: "lastRoot s2" .
    then have l': "lastRoot s'" unfolding lastRoot_def v c .
    from createTasks_loop_wellFormed[OF loop w1 d1] have x: "extends id' ?s1 s2" by simp
    from createTasks_loop_created[OF loop w1 d1]
    have dm: "dom (tasks s2) = dom (tasks s) \<union> taskName ` {taskIDCounter s <.. taskIDCounter s2}"
      unfolding withExpression_fields by blast
    have "rootsOf s' id' \<noteq> {}" if ne: "tasksOf s' id' \<noteq> {}"
    proof -
      from ne obtain k where k: "k \<in> tasksOf s' id'" by blast
      with new have "k \<notin> dom (tasks s)" by blast
      moreover from k have "k \<in> dom (tasks s2)" using tasksOf_dom[of s' id'] unfolding t by blast
      ultimately have "k \<in> taskName ` {taskIDCounter s <.. taskIDCounter s2}"
        unfolding dm by blast
      then have lt: "taskIDCounter s < taskIDCounter s2" by auto
      let ?k = "taskName (taskIDCounter s2)"
      from lt have "?k \<in> dom (tasks s2)" unfolding dm by simp
      then obtain u where u: "tasks s2 ?k = Some u" by blast
      from w have "keysNamed s" by (simp add: wellFormed_def)
      from keysNamed_above[OF this lt] have nk: "?k \<notin> dom (tasks ?s1)"
        unfolding withExpression_fields .
      with x u have "ExpressionID u = id'" unfolding extends_def by blast
      with u have "?k \<in> tasksOf s' id'" unfolding tasksOf_def t by blast
      moreover from l2 have "length (lookupList (reverseDependencies s') ?k) = 0"
        unfolding lastRoot_def v by simp
      ultimately have "?k \<in> rootsOf s' id'" unfolding rootsOf_def by simp
      then show ?thesis by blast
    qed
    with l' show ?thesis by blast
  qed
  from r have "(lastRoot s' \<and> (tasksOf s' id' \<noteq> {} \<longrightarrow> rootsOf s' id' \<noteq> {}))
      \<and> (\<forall>i. r = Inr i \<longrightarrow> (\<forall>k \<in> rootsOf s' id'. \<forall>k' \<in> rootsOf s' id'. k = k'))"
  proof (cases rule: SubmitExpression_cases)
    case (rejected err)
    from rejected(2) have "tasksOf s' id' = tasksOf s id'"
      unfolding tasksOf_def by (simp add: withExpression_fields)
    with none have "tasksOf s' id' = {}" by simp
    moreover from l rejected(2) have "lastRoot s'"
      by (simp add: lastRoot_def withExpression_fields)
    ultimately show ?thesis using rejected(1) by simp
  next
    case (failed err tokens postfix res s2)
    from common[OF failed(4)] failed(5) failed(1) show ?thesis
      by (simp add: withExpression_fields)
  next
    case (built tokens postfix top s2)
    have f: "tasks s' = tasks s2" "reverseDependencies s' = reverseDependencies s2"
      "taskIDCounter s' = taskIDCounter s2"
      unfolding built(5) by (simp_all add: withExpression_fields markReady_fields)
    have "\<forall>k \<in> dom (tasks ?s1) - dom (tasks ?s1).
          lookupList (reverseDependencies ?s1) k = [] \<longrightarrow> k \<in> set []" by simp
    from createTasks_loop_roots[OF built(4) w1 d1 subset_refl this]
    have one: "\<forall>k \<in> dom (tasks s2) - dom (tasks s).
          lookupList (reverseDependencies s2) k = [] \<longrightarrow> k = top"
      unfolding withExpression_fields by simp
    have "k = top" if "k \<in> rootsOf s' id'" for k
    proof -
      from that have "k \<in> tasksOf s' id'" "lookupList (reverseDependencies s') k = []"
        unfolding rootsOf_def by simp_all
      with new tasksOf_dom[of s' id'] have "k \<in> dom (tasks s2) - dom (tasks s)"
        "lookupList (reverseDependencies s2) k = []" unfolding f by blast+
      with one show ?thesis by blast
    qed
    then have "\<forall>k \<in> rootsOf s' id'. \<forall>k' \<in> rootsOf s' id'. k = k'" by blast
    with common[OF built(4) f] show ?thesis by simp
  qed
  then show "lastRoot s'"
    and "tasksOf s' id' \<noteq> {} \<Longrightarrow> rootsOf s' id' \<noteq> {}"
    and "r = Inr i \<Longrightarrow> \<forall>k \<in> rootsOf s' id'. \<forall>k' \<in> rootsOf s' id'. k = k'"
    by blast+
qed

text \<open>Every operation keeps the invariant of the expressions.\<close>

lemma SubmitExpression_others:
  assumes w: "wellFormed s" and fresh: "id' \<notin> dom (expressions s)"
    and r: "SubmitExpression parseFloat id' e keys s = (r, s')"
  shows "\<And>k. k \<in> dom (tasks s) \<Longrightarrow> resultOf s' k = resultOf s k"
    and "e0 \<noteq> id' \<Longrightarrow> tasksOf s' e0 = tasksOf s e0"
    and "e0 \<noteq> id' \<Longrightarrow> rootsOf s' e0 = rootsOf s e0"
    and "e0 \<noteq> id' \<Longrightarrow> allRecorded s' e0 = allRecorded s e0"
proof -
  note st = SubmitExpression_state[OF w fresh r]
  from st(5) have idx: "\<And>k. k \<in> dom (tasks s) \<Longrightarrow>
      lookupList (reverseDependencies s') k = lookupList (reverseDependencies s) k"
    unfolding built_def by blast
  show res: "resultOf s' k = resultOf s k" if "k \<in> dom (tasks s)" for k
  proof -
    from that obtain u where u: "tasks s k = Some u" by blast
    from st(3)[OF u] u show ?thesis by (simp add: resultOf_def)
  qed
  have t: "tasksOf s' e0 = tasksOf s e0" if ne: "e0 \<noteq> id'"
  proof
    show "tasksOf s' e0 \<subseteq> tasksOf s e0"
    proof
      fix k assume "k \<in> tasksOf s' e0"
      then obtain u where u: "tasks s' k = Some u" "ExpressionID u = e0"
        unfolding tasksOf_def by blast
      from st(4)[OF u(1)] u(2) ne have "tasks s k = Some u" by blast
      with u(2) show "k \<in> tasksOf s e0" unfolding tasksOf_def by blast
    qed
    show "tasksOf s e0 \<subseteq> tasksOf s' e0"
    proof
      fix k assume "k \<in> tasksOf s e0"
      then obtain u where u: "tasks s k = Some u" "ExpressionID u = e0"
        unfolding tasksOf_def by blast
      from st(3)[OF u(1)] u(2) show "k \<in> tasksOf s' e0" unfolding tasksOf_def by blast
    qed
  qed
  then show "e0 \<noteq> id' \<Longrightarrow> tasksOf s' e0 = tasksOf s e0" .
  have idx': "lookupList (reverseDependencies s') k = lookupList (reverseDependencies s) k"
    if "k \<in> tasksOf s e0" for k using that idx tasksOf_dom[of s e0] by blast
  have res': "resultOf s' k = resultOf s k" if "k \<in> tasksOf s e0" for k
    using that res tasksOf_dom[of s e0] by blast
  show "rootsOf s' e0 = rootsOf s e0" if ne: "e0 \<noteq> id'"
    unfolding rootsOf_def t[OF ne] by (auto simp: idx')
  show "allRecorded s' e0 = allRecorded s e0" if ne: "e0 \<noteq> id'"
    unfolding allRecorded_def t[OF ne] by (simp add: res')
qed

lemma SubmitExpression_completed:
  assumes w: "wellFormed s" and fresh: "id' \<notin> dom (expressions s)"
    and r: "SubmitExpression parseFloat id' e keys s = (r, s')" and l: "lastRoot s"
    and c: "completedWhenRecorded s"
  shows "completedWhenRecorded s'"
proof -
  note st = SubmitExpression_state[OF w fresh r]
  note ot = SubmitExpression_others[OF w fresh r]
  note rt = SubmitExpression_roots[OF w fresh r l]
  from st(2) obtain status where status: "status = Failed \<or> status = InProcess"
    and ex: "expressions s' = (expressions s)(id' \<mapsto> submitted id' (stripSpaces e) status)"
    by blast
  from c have c1: "\<And>e0 x. expressions s e0 = Some x \<Longrightarrow>
        (ExpressionData.Status x = Completed \<longleftrightarrow> tasksOf s e0 \<noteq> {} \<and> allRecorded s e0)
        \<and> (ExpressionData.Status x = Completed \<longrightarrow>
              (\<exists>k \<in> rootsOf s e0. ExpressionData.Result x = resultOf s k))"
    and c2: "\<And>e0. tasksOf s e0 \<noteq> {} \<Longrightarrow> rootsOf s e0 \<noteq> {}"
    unfolding completedWhenRecorded_def by blast+
  have none: "tasksOf s id' = {}" by (rule tasksOf_unknown[OF w fresh])
  have fresh_tasks: "\<not> (tasksOf s' id' \<noteq> {} \<and> allRecorded s' id')"
  proof
    assume a: "tasksOf s' id' \<noteq> {} \<and> allRecorded s' id'"
    then obtain k u where u: "tasks s' k = Some u" "ExpressionID u = id'"
      unfolding tasksOf_def by blast
    from st(4)[OF u(1)] u(2) none have "k \<notin> dom (tasks s)" unfolding tasksOf_def by blast
    with st(5) u(1) have "Result u = None" unfolding built_def by blast
    with u have "k \<in> tasksOf s' id'" "resultOf s' k = None"
      unfolding tasksOf_def resultOf_def by auto
    with a show False unfolding allRecorded_def by blast
  qed
  have a: "(ExpressionData.Status x = Completed \<longleftrightarrow> tasksOf s' e0 \<noteq> {} \<and> allRecorded s' e0)
        \<and> (ExpressionData.Status x = Completed \<longrightarrow>
              (\<exists>k \<in> rootsOf s' e0. ExpressionData.Result x = resultOf s' k))"
    if x: "expressions s' e0 = Some x" for e0 x
  proof (cases "e0 = id'")
    case True
    with x ex have "x = submitted id' (stripSpaces e) status" by simp
    with status have "ExpressionData.Status x \<noteq> Completed" by (auto simp: submitted_def)
    with fresh_tasks True show ?thesis by simp
  next
    case False
    with x ex have old: "expressions s e0 = Some x" by simp
    have "resultOf s' k = resultOf s k" if "k \<in> rootsOf s e0" for k
      using that rootsOf_tasks[of s e0] tasksOf_dom[of s e0] ot(1)[of k] by blast
    with c1[OF old] show ?thesis unfolding ot(2)[OF False] ot(3)[OF False] ot(4)[OF False]
      by auto
  qed
  have b: "rootsOf s' e0 \<noteq> {}" if "tasksOf s' e0 \<noteq> {}" for e0
  proof (cases "e0 = id'")
    case True
    with that rt(2) show ?thesis by simp
  next
    case False
    with that c2[of e0] show ?thesis unfolding ot(2)[OF False] ot(3)[OF False] by simp
  qed
  from a b show ?thesis unfolding completedWhenRecorded_def by blast
qed

lemma processing_completed:
  assumes "tasks s k = Some t"
  shows "tasksOf (s\<lparr> tasks := (tasks s)(k \<mapsto> t\<lparr> Status := ''processing'' \<rparr>),
              readyTasks := R \<rparr>) e = tasksOf s e"
    and "resultOf (s\<lparr> tasks := (tasks s)(k \<mapsto> t\<lparr> Status := ''processing'' \<rparr>),
              readyTasks := R \<rparr>) k' = resultOf s k'"
    and "rootsOf (s\<lparr> tasks := (tasks s)(k \<mapsto> t\<lparr> Status := ''processing'' \<rparr>),
              readyTasks := R \<rparr>) e = rootsOf s e"
    and "completedWhenRecorded (s\<lparr> tasks := (tasks s)(k \<mapsto> t\<lparr> Status := ''processing'' \<rparr>),
              readyTasks := R \<rparr>) = completedWhenRecorded s"
    and "lastRoot (s\<lparr> tasks := (tasks s)(k \<mapsto> t\<lparr> Status := ''processing'' \<rparr>),
              readyTasks := R \<rparr>) = lastRoot s"
proof -
  let ?s = "s\<lparr> tasks := (tasks s)(k \<mapsto> t\<lparr> Status := ''processing'' \<rparr>), readyTasks := R \<rparr>"
  show t: "tasksOf ?s e = tasksOf s e" for e using assms by (auto simp: tasksOf_def)
  show r: "resultOf ?s k' = resultOf s k'" for k' using assms by (simp add: resultOf_def)
  show o: "rootsOf ?s e = rootsOf s e" for e unfolding rootsOf_def t by simp
  have a: "allRecorded ?s e = allRecorded s e" for e unfolding allRecorded_def t r ..
  show "completedWhenRecorded ?s = completedWhenRecorded s"
    unfolding completedWhenRecorded_def t r o a by simp
  show "lastRoot ?s = lastRoot s" by (simp add: lastRoot_def)
qed

lemma SetTaskResult_others:
  assumes w: "wellFormed s" and t: "tasks s i = Some t"
    and r: "SetTaskResult formatFloat i v keys s = Some (r, s')"
  shows "tasksOf s' e = tasksOf s e"
    and "rootsOf s' e = rootsOf s e"
    and "resultOf s' k = (if k = i then Some v else resultOf s k)"
    and "tasksOf (withResult i v t s) e = tasksOf s e"
    and "rootsOf (withResult i v t s) e = rootsOf s e"
    and "resultOf (withResult i v t s) k = (if k = i then Some v else resultOf s k)"
proof -
  note st = SetTaskResult_state[OF w t r]
  show ts: "tasksOf s' e = tasksOf s e" for e
  proof
    show "tasksOf s' e \<subseteq> tasksOf s e"
    proof
      fix k assume "k \<in> tasksOf s' e"
      then obtain u' where u': "tasks s' k = Some u'" "ExpressionID u' = e"
        unfolding tasksOf_def by blast
      from st(7)[OF u'(1)] u'(2) show "k \<in> tasksOf s e" unfolding tasksOf_def by auto
    qed
    show "tasksOf s e \<subseteq> tasksOf s' e"
    proof
      fix k assume "k \<in> tasksOf s e"
      then obtain u where u: "tasks s k = Some u" "ExpressionID u = e"
        unfolding tasksOf_def by blast
      then have "k \<in> dom (tasks s')" unfolding st(6) by blast
      then obtain u' where u': "tasks s' k = Some u'" by blast
      from st(7)[OF u'] u have "ExpressionID u' = e" by auto
      with u' show "k \<in> tasksOf s' e" unfolding tasksOf_def by blast
    qed
  qed
  show "rootsOf s' e = rootsOf s e" unfolding rootsOf_def ts st(4) ..
  show "resultOf s' k = (if k = i then Some v else resultOf s k)"
  proof (cases "tasks s' k")
    case None
    then have "k \<notin> dom (tasks s)" unfolding st(6)[symmetric] by blast
    then have "tasks s k = None" "k \<noteq> i" using t by auto
    with None show ?thesis by (simp add: resultOf_def)
  next
    case (Some u')
    from st(7)[OF Some] obtain u where "tasks s k = Some u"
      "Result u' = (if k = i then Some v else Result u)" by blast
    with Some show ?thesis by (simp add: resultOf_def)
  qed
  show "tasksOf (withResult i v t s) e = tasksOf s e"
    using t by (auto simp: tasksOf_def withResult_def)
  then show "rootsOf (withResult i v t s) e = rootsOf s e"
    unfolding rootsOf_def by (simp add: withResult_def)
  show "resultOf (withResult i v t s) k = (if k = i then Some v else resultOf s k)"
    by (simp add: resultOf_def withResult_def)
qed

lemma SetTaskResult_completed:
  assumes w: "wellFormed s" and keys: "set keys = dom (tasks s)"
    and r: "SetTaskResult formatFloat i v keys s = Some (r, s')"
    and c: "completedWhenRecorded s"
  shows "completedWhenRecorded s'"
proof (cases "tasks s i")
  case None
  with r c show ?thesis by (simp add: SetTaskResult_def)
next
  case (Some t)
  note st = SetTaskResult_state[OF w Some r]
  note ot = SetTaskResult_others[OF w Some r]
  let ?e = "ExpressionID t" and ?s1 = "withResult i v t s"
  from c have c1: "\<And>e0 x. expressions s e0 = Some x \<Longrightarrow>
        (ExpressionData.Status x = Completed \<longleftrightarrow> tasksOf s e0 \<noteq> {} \<and> allRecorded s e0)
        \<and> (ExpressionData.Status x = Completed \<longrightarrow>
              (\<exists>k \<in> rootsOf s e0. ExpressionData.Result x = resultOf s k))"
    and c2: "\<And>e0. tasksOf s e0 \<noteq> {} \<Longrightarrow> rootsOf s e0 \<noteq> {}"
    unfolding completedWhenRecorded_def by blast+
  from w Some obtain x0 where x0: "expressions s ?e = Some x0"
    unfolding wellFormed_def expressionsKnown_def by blast
  have i: "i \<in> tasksOf s ?e" using Some by (simp add: tasksOf_def)
  with c2 have roots: "rootsOf s ?e \<noteq> {}" by blast
  have all1: "allRecorded ?s1 e = allRecorded s' e" for e
    unfolding allRecorded_def ot by simp
  have mono: "allRecorded s e \<Longrightarrow> allRecorded s' e" for e
    unfolding allRecorded_def ot by simp
  have other: "allRecorded s' e = allRecorded s e" if "e \<noteq> ?e" for e
  proof -
    have "k \<noteq> i" if "k \<in> tasksOf s e" for k
      using that \<open>e \<noteq> ?e\<close> Some unfolding tasksOf_def by auto
    then show ?thesis unfolding allRecorded_def ot by auto
  qed
  have k1: "set keys = dom (tasks ?s1)" using keys Some by (auto simp: withResult_def)
  have x1: "expressions ?s1 ?e = Some x0" using x0 by (simp add: withResult_def)
  have ex1: "expressions ?s1 = expressions s" by (simp add: withResult_def)
  note up = updateExpressionStatus_result[OF k1 x1]
  have ex: "(allRecorded s' ?e \<and> (\<exists>k \<in> rootsOf s' ?e. expressions s' = (expressions s)(?e \<mapsto>
               x0\<lparr> ExpressionData.Status := Completed, ExpressionData.Result := resultOf s' k \<rparr>)))
       \<or> (\<not> allRecorded s' ?e \<and> expressions s' = expressions s)"
  proof (cases "allRecorded s' ?e")
    case True
    with roots have "allRecorded ?s1 ?e \<and> rootsOf ?s1 ?e \<noteq> {}" unfolding all1 ot by simp
    from up(1)[OF this] obtain k where k: "k \<in> rootsOf ?s1 ?e"
      and u: "updateExpressionStatus ?e keys ?s1 =
             Some (?s1\<lparr> expressions := (expressions ?s1)(?e \<mapsto>
               x0\<lparr> ExpressionData.Status := Completed, ExpressionData.Result := resultOf ?s1 k \<rparr>) \<rparr>)"
      by blast
    from u st(8) have "expressions s' = (expressions ?s1)(?e \<mapsto>
               x0\<lparr> ExpressionData.Status := Completed, ExpressionData.Result := resultOf ?s1 k \<rparr>)"
      by (metis (no_types, lifting) Service.select_convs(1) Service.surjective
          Service.update_convs(1) option.inject)
    then have "expressions s' = (expressions s)(?e \<mapsto>
               x0\<lparr> ExpressionData.Status := Completed, ExpressionData.Result := resultOf s' k \<rparr>)"
      unfolding ex1 ot .
    with k True show ?thesis unfolding ot by blast
  next
    case False
    then have "\<not> (allRecorded ?s1 ?e \<and> rootsOf ?s1 ?e \<noteq> {})" unfolding all1 by simp
    from up(2)[OF this] st(8) have "?s1 = ?s1\<lparr> expressions := expressions s' \<rparr>" by simp
    then have "expressions ?s1 = expressions s'"
      by (metis Service.select_convs(1) Service.surjective Service.update_convs(1))
    with False show ?thesis unfolding ex1 by simp
  qed
  have a: "(ExpressionData.Status x = Completed \<longleftrightarrow> tasksOf s' e \<noteq> {} \<and> allRecorded s' e)
        \<and> (ExpressionData.Status x = Completed \<longrightarrow>
              (\<exists>k \<in> rootsOf s' e. ExpressionData.Result x = resultOf s' k))"
    if x: "expressions s' e = Some x" for e x
  proof (cases "e = ?e")
    case False
    with x ex have old: "expressions s e = Some x" by auto
    have "resultOf s' k = resultOf s k" if "k \<in> rootsOf s e" for k
    proof -
      from that rootsOf_tasks[of s e] have "k \<in> tasksOf s e" by blast
      with False Some have "k \<noteq> i" unfolding tasksOf_def by auto
      then show ?thesis unfolding ot by simp
    qed
    with c1[OF old] show ?thesis unfolding ot(1,2) other[OF False] by auto
  next
    case True
    from ex show ?thesis
    proof
      assume h: "allRecorded s' ?e \<and> (\<exists>k \<in> rootsOf s' ?e. expressions s' = (expressions s)(?e \<mapsto>
               x0\<lparr> ExpressionData.Status := Completed, ExpressionData.Result := resultOf s' k \<rparr>))"
      then obtain k where k: "k \<in> rootsOf s' ?e" and e': "expressions s' = (expressions s)(?e \<mapsto>
               x0\<lparr> ExpressionData.Status := Completed, ExpressionData.Result := resultOf s' k \<rparr>)"
        by blast
      from x e' True have xx: "x = x0\<lparr> ExpressionData.Status := Completed,
          ExpressionData.Result := resultOf s' k \<rparr>" by simp
      have "ExpressionData.Status x = Completed" "ExpressionData.Result x = resultOf s' k"
        unfolding xx by simp_all
      with k h i show ?thesis unfolding True ot(1) by blast
    next
      assume h: "\<not> allRecorded s' ?e \<and> expressions s' = expressions s"
      with x True have "x = x0" using x0 by simp
      with c1[OF x0] mono[of ?e] h show ?thesis unfolding True by blast
    qed
  qed
  have b: "rootsOf s' e \<noteq> {}" if "tasksOf s' e \<noteq> {}" for e
    using that c2[of e] unfolding ot by blast
  from a b show ?thesis unfolding completedWhenRecorded_def by blast
qed

lemma NewService_completed:
  "lastRoot (NewService times')" "completedWhenRecorded (NewService times')"
  by (simp_all add: lastRoot_def completedWhenRecorded_def NewService_def lookupList_def
      tasksOf_def)

lemma updateExpressionStatus_dom:
  "updateExpressionStatus e keys s = Some s2 \<Longrightarrow> dom (expressions s2) = dom (expressions s)"
  by (auto simp: updateExpressionStatus_def split: prod.splits if_splits option.splits)

lemma SetTaskResult_expressions_dom:
  assumes w: "wellFormed s" and r: "SetTaskResult formatFloat i v keys s = Some (r, s')"
  shows "dom (expressions s') = dom (expressions s)"
proof (cases "tasks s i")
  case None
  with r show ?thesis by (simp add: SetTaskResult_def)
next
  case (Some t)
  from updateExpressionStatus_dom[OF SetTaskResult_state(8)[OF w Some r]]
  show ?thesis by (simp add: withResult_def)
qed

lemma SetTaskResult_roots:
  assumes w: "wellFormed s" and r: "SetTaskResult formatFloat i v keys s = Some (r, s')"
  shows "rootsOf s' e = rootsOf s e" and "lastRoot s' = lastRoot s"
proof -
  have "rootsOf s' e = rootsOf s e \<and> lastRoot s' = lastRoot s"
  proof (cases "tasks s i")
    case None
    with r show ?thesis by (simp add: SetTaskResult_def)
  next
    case (Some t)
    from SetTaskResult_others(2)[OF w Some r] SetTaskResult_state(4,5)[OF w Some r]
    show ?thesis by (simp add: lastRoot_def)
  qed
  then show "rootsOf s' e = rootsOf s e" and "lastRoot s' = lastRoot s" by simp_all
qed

lemma SubmitExpression_returns:
  assumes "SubmitExpression parseFloat id' e keys s = (Inr i, s')"
  shows "i = id'"
  using assms by (cases rule: SubmitExpression_cases) simp_all

lemma run_completed:
  "wellFormed s \<Longrightarrow> lastRoot s \<Longrightarrow> completedWhenRecorded s
   \<Longrightarrow> \<forall>e \<in> E. e \<in> dom (expressions s) \<and> (\<forall>k \<in> rootsOf s e. \<forall>k' \<in> rootsOf s e. k = k')
   \<Longrightarrow> admissibleRun parseFloat formatFloat operations s
   \<Longrightarrow> run parseFloat formatFloat operations s = Some (rs, s')
   \<Longrightarrow> completedWhenRecorded s'
       \<and> (\<forall>e \<in> E \<union> {e. Submitted (Inr e) \<in> set rs}.
             \<forall>k \<in> rootsOf s' e. \<forall>k' \<in> rootsOf s' e. k = k')"
proof (induction operations arbitrary: s rs E)
  case Nil
  then show ?case by simp
next
  case (Cons operation rest)
  from Cons.prems(5) have adm: "admissible parseFloat operation s" by simp
  from step_wellFormed[OF Cons.prems(1) adm, of formatFloat] obtain r s1 where
    st: "step parseFloat formatFloat operation s = Some (r, s1)" and w1: "wellFormed s1" by blast
  from Cons.prems(5) st have adm1: "admissibleRun parseFloat formatFloat rest s1" by simp
  from Cons.prems(6) st obtain rs1 where
    run1: "run parseFloat formatFloat rest s1 = Some (rs1, s')" and rs: "rs = r # rs1"
    by (auto split: option.splits)
  show ?case
  proof (cases operation)
    case (Submit id' e keys)
    with st obtain r0 where sub: "SubmitExpression parseFloat id' e keys s = (r0, s1)"
      and r: "r = Submitted r0" by (auto split: prod.splits)
    from adm Submit have fresh: "id' \<notin> dom (expressions s)" by simp
    note c1 = SubmitExpression_completed[OF Cons.prems(1) fresh sub Cons.prems(2,3)]
    note rt = SubmitExpression_roots[OF Cons.prems(1) fresh sub Cons.prems(2)]
    note ot = SubmitExpression_others[OF Cons.prems(1) fresh sub]
    from SubmitExpression_state(2)[OF Cons.prems(1) fresh sub]
    have dm: "dom (expressions s1) = insert id' (dom (expressions s))" by auto
    let ?E = "E \<union> {i. r0 = Inr i}"
    have "\<forall>e \<in> ?E. e \<in> dom (expressions s1)
        \<and> (\<forall>k \<in> rootsOf s1 e. \<forall>k' \<in> rootsOf s1 e. k = k')"
    proof
      fix e0 assume "e0 \<in> ?E"
      then consider "e0 \<in> E" | "r0 = Inr e0" by blast
      then show "e0 \<in> dom (expressions s1)
        \<and> (\<forall>k \<in> rootsOf s1 e0. \<forall>k' \<in> rootsOf s1 e0. k = k')"
      proof cases
        case 1
        with Cons.prems(4) have d: "e0 \<in> dom (expressions s)"
          and u: "\<forall>k \<in> rootsOf s e0. \<forall>k' \<in> rootsOf s e0. k = k'" by blast+
        from d fresh have "e0 \<noteq> id'" by blast
        from ot(3)[OF this] u d show ?thesis unfolding dm by simp
      next
        case 2
        with sub SubmitExpression_returns[of parseFloat id' e keys s e0 s1] have "e0 = id'"
          by simp
        with rt(3)[OF 2] show ?thesis unfolding dm by simp
      qed
    qed
    from Cons.IH[OF w1 rt(1) c1 this adm1 run1]
    have "completedWhenRecorded s'"
      and "\<forall>e \<in> ?E \<union> {e. Submitted (Inr e) \<in> set rs1}.
             \<forall>k \<in> rootsOf s' e. \<forall>k' \<in> rootsOf s' e. k = k'" by blast+
    moreover have "E \<union> {e. Submitted (Inr e) \<in> set rs} = ?E \<union> {e. Submitted (Inr e) \<in> set rs1}"
      unfolding rs r by auto
    ultimately show ?thesis by simp
  next
    case (Pull keys)
    with adm Cons.prems(1) have e: "enumerates keys (readyTasks s)"
      and rd: "readyTasks s \<subseteq> dom (tasks s)" by (simp_all add: wellFormed_def)
    from e rd show ?thesis
    proof (cases rule: GetTask_cases)
      case none
      with st Pull have "r = Pulled None" "s1 = s" by simp_all
      with Cons.IH[OF Cons.prems(1,2,3,4)] adm1 run1 show ?thesis by (simp add: rs)
    next
      case (pulled k t)
      let ?s1 = "s\<lparr> tasks := (tasks s)(k \<mapsto> t\<lparr> Status := ''processing'' \<rparr>),
                readyTasks := readyTasks s - {k} \<rparr>"
      from pulled(3) st Pull have r: "r = Pulled (Some (t\<lparr> Status := ''processing'' \<rparr>))"
        and s1: "s1 = ?s1" by simp_all
      note p = processing_completed[OF pulled(2), of "readyTasks s - {k}"]
      have l1: "lastRoot ?s1" using Cons.prems(2) unfolding p(5) .
      have c1: "completedWhenRecorded ?s1" using Cons.prems(3) unfolding p(4) .
      have u1: "\<forall>e \<in> E. e \<in> dom (expressions ?s1)
          \<and> (\<forall>k \<in> rootsOf ?s1 e. \<forall>k' \<in> rootsOf ?s1 e. k = k')"
        using Cons.prems(4) unfolding p(3) by simp
      from Cons.IH[OF w1[unfolded s1] l1 c1 u1 adm1[unfolded s1] run1[unfolded s1]]
      show ?thesis by (simp add: rs r)
    qed
  next
    case (Record i v keys)
    with st obtain r0 where set: "SetTaskResult formatFloat i v keys s = Some (r0, s1)"
      and r: "r = Recorded r0" by (auto split: option.splits)
    from adm Record have keys: "set keys = dom (tasks s)" by (simp add: enumerates_def)
    note c1 = SetTaskResult_completed[OF Cons.prems(1) keys set Cons.prems(3)]
    note rt = SetTaskResult_roots[OF Cons.prems(1) set]
    have l1: "lastRoot s1" using Cons.prems(2) unfolding rt(2) .
    have u1: "\<forall>e \<in> E. e \<in> dom (expressions s1)
          \<and> (\<forall>k \<in> rootsOf s1 e. \<forall>k' \<in> rootsOf s1 e. k = k')"
      using Cons.prems(4)
      unfolding rt(1) SetTaskResult_expressions_dom[OF Cons.prems(1) set] .
    from Cons.IH[OF w1 l1 c1 u1 adm1 run1] show ?thesis by (simp add: rs r)
  qed
qed

text \<open>
  Claim C3, as amended.  In every state that a run of submissions, pulls and recorded
  results reaches from the start of the service, an expression is completed exactly
  when it has at least one task and every task of it has a result.  The result of a
  completed expression is then the result of a root task of it, a task with no
  dependents, and that result is recorded.  An expression whose submission succeeded
  has at most one root task; an expression whose build failed can have several, and
  it becomes completed all the same when results are recorded for all its tasks.
\<close>

theorem expression_completed_iff:
  assumes "reaches parseFloat formatFloat times' operations responses s"
    and "expressions s e = Some x"
  shows "(ExpressionData.Status x = Completed \<longleftrightarrow> tasksOf s e \<noteq> {} \<and> allRecorded s e)
       \<and> (ExpressionData.Status x = Completed \<longrightarrow>
            (\<exists>k \<in> rootsOf s e. ExpressionData.Result x = resultOf s k \<and> resultOf s k \<noteq> None))
       \<and> (Submitted (Inr e) \<in> set responses \<longrightarrow>
            (\<forall>k \<in> rootsOf s e. \<forall>k' \<in> rootsOf s e. k = k'))"
proof -
  from assms(1) have a: "admissibleRun parseFloat formatFloat operations (NewService times')"
    and r: "run parseFloat formatFloat operations (NewService times') = Some (responses, s)"
    by (simp_all add: reaches_def)
  have "\<forall>e \<in> {}. e \<in> dom (expressions (NewService times'))
      \<and> (\<forall>k \<in> rootsOf (NewService times') e. \<forall>k' \<in> rootsOf (NewService times') e. k = k')"
    by simp
  from run_completed[OF NewService_wellFormed NewService_completed this a r]
  have c: "completedWhenRecorded s"
    and u: "\<forall>e \<in> {e. Submitted (Inr e) \<in> set responses}.
             \<forall>k \<in> rootsOf s e. \<forall>k' \<in> rootsOf s e. k = k'" by simp_all
  from c assms(2)
  have 1: "ExpressionData.Status x = Completed \<longleftrightarrow> tasksOf s e \<noteq> {} \<and> allRecorded s e"
    and 2: "ExpressionData.Status x = Completed \<longrightarrow>
              (\<exists>k \<in> rootsOf s e. ExpressionData.Result x = resultOf s k)"
    unfolding completedWhenRecorded_def by blast+
  have 3: "ExpressionData.Status x = Completed \<longrightarrow>
            (\<exists>k \<in> rootsOf s e. ExpressionData.Result x = resultOf s k \<and> resultOf s k \<noteq> None)"
  proof
    assume cm: "ExpressionData.Status x = Completed"
    with 2 obtain k where k: "k \<in> rootsOf s e" "ExpressionData.Result x = resultOf s k" by blast
    from cm 1 have "allRecorded s e" by simp
    with k(1) rootsOf_tasks[of s e] have "resultOf s k \<noteq> None" unfolding allRecorded_def by blast
    with k show "\<exists>k \<in> rootsOf s e. ExpressionData.Result x = resultOf s k \<and> resultOf s k \<noteq> None"
      by blast
  qed
  from u have 4: "Submitted (Inr e) \<in> set responses \<longrightarrow>
            (\<forall>k \<in> rootsOf s e. \<forall>k' \<in> rootsOf s e. k = k')" by simp
  from 1 3 4 show ?thesis by (intro conjI)
qed

lemma reaches_completed:
  "\<exists>(s :: nat Service) x. reaches parseDecimal formatWhole unitTimes
     [Submit ''e1'' ''2+2*2'' [''task_1'', ''task_2''], Pull [''task_1''],
      Record ''task_1'' 4 [''task_1'', ''task_2''], Pull [''task_2''],
      Record ''task_2'' 6 [''task_1'', ''task_2''], Pull []]
     [Submitted (Inr ''e1''),
      Pulled (Some ((multiplicationTask ''e1'' unitTimes)\<lparr> Status := ''processing'' \<rparr>)),
      Recorded None,
      Pulled (Some ((additionTask ''e1'' unitTimes ''4.000000'')\<lparr> Status := ''processing'' \<rparr>)),
      Recorded None,
      Pulled None] s
     \<and> expressions s ''e1'' = Some x \<and> ExpressionData.Status x = Completed
     \<and> ExpressionData.Result x = Some 6 \<and> ''task_2'' \<in> rootsOf s ''e1''"
  by (simp add: reaches_def scenario_defs compile_2p2m2[OF parseDecimal_symbols parseDecimal_2]
      enumerates_def formatWhole_def digitsOf.simps digitChar_def rootsOf_def tasksOf_def)

text \<open>
  The theorem at the run of \<open>2+2*2\<close> in which both tasks are pulled and recorded:
  the expression is completed, \<open>task_2\<close> is its only root, and its result is 6.
\<close>

theorem expression_completed_iff_witness:
  "\<exists>(s :: nat Service) x. reaches parseDecimal formatWhole unitTimes
     [Submit ''e1'' ''2+2*2'' [''task_1'', ''task_2''], Pull [''task_1''],
      Record ''task_1'' 4 [''task_1'', ''task_2''], Pull [''task_2''],
      Record ''task_2'' 6 [''task_1'', ''task_2''], Pull []]
     [Submitted (Inr ''e1''),
      Pulled (Some ((multiplicationTask ''e1'' unitTimes)\<lparr> Status := ''processing'' \<rparr>)),
      Recorded None,
      Pulled (Some ((additionTask ''e1'' unitTimes ''4.000000'')\<lparr> Status := ''processing'' \<rparr>)),
      Recorded None,
      Pulled None] s
     \<and> expressions s ''e1'' = Some x \<and> ExpressionData.Status x = Completed
     \<and> tasksOf s ''e1'' \<noteq> {} \<and> allRecorded s ''e1''
     \<and> rootsOf s ''e1'' = {''task_2''} \<and> resultOf s ''task_2'' = Some 6"
proof -
  let ?ops = "[Submit ''e1'' ''2+2*2'' [''task_1'', ''task_2''], Pull [''task_1''],
      Record ''task_1'' 4 [''task_1'', ''task_2''], Pull [''task_2''],
      Record ''task_2'' 6 [''task_1'', ''task_2''], Pull []] :: nat operation list"
  let ?rs = "[Submitted (Inr ''e1''),
      Pulled (Some ((multiplicationTask ''e1'' unitTimes)\<lparr> Status := ''processing'' \<rparr>)),
      Recorded None,
      Pulled (Some ((additionTask ''e1'' unitTimes ''4.000000'')\<lparr> Status := ''processing'' \<rparr>)),
      Recorded None,
      Pulled None] :: nat response list"
  from reaches_completed obtain s :: "nat Service" and x where
    r: "reaches parseDecimal formatWhole unitTimes ?ops ?rs s"
    and x: "expressions s ''e1'' = Some x" and c: "ExpressionData.Status x = Completed"
    and v: "ExpressionData.Result x = Some 6" and k: "''task_2'' \<in> rootsOf s ''e1''"
    by (elim exE conjE)
  note t = expression_completed_iff[OF r x]
  from t c have a: "tasksOf s ''e1'' \<noteq> {}" "allRecorded s ''e1''" by simp_all
  have sub: "Submitted (Inr ''e1'') \<in> set ?rs" by simp
  from t have "Submitted (Inr ''e1'') \<in> set ?rs \<longrightarrow>
      (\<forall>k \<in> rootsOf s ''e1''. \<forall>k' \<in> rootsOf s ''e1''. k = k')" by (elim conjE)
  from mp[OF this sub] have u: "\<forall>k \<in> rootsOf s ''e1''. \<forall>k' \<in> rootsOf s ''e1''. k = k'" .
  with k have roots: "rootsOf s ''e1'' = {''task_2''}" by blast
  from t c obtain k' where "k' \<in> rootsOf s ''e1''" "ExpressionData.Result x = resultOf s k'"
    by blast
  with roots v have res: "resultOf s ''task_2'' = Some 6" by simp
  from r x c a roots res show ?thesis by (intro exI[of _ s] exI[of _ x] conjI)
qed

text \<open>
  The text \<open>(1+2)(3+4)\<close> compiles to two additions and leaves two values on the
  stack: the submission fails and both tasks stay, each without dependents.  Recording
  a result for each of them completes the failed expression.
\<close>

lemma compile_two_groups:
  "tokenize ''(1+2)(3+4)'' = Inr [''('', ''1'', ''+'', ''2'', '')'', ''('', ''3'', ''+'', ''4'', '')'']"
  "shuntingYard parseDecimal [''('', ''1'', ''+'', ''2'', '')'', ''('', ''3'', ''+'', ''4'', '')'']
     = Inr [''1'', ''2'', ''+'', ''3'', ''4'', ''+'']"
  by (simp_all add: tokenize_def tokenize_loop.simps(2) byteToString_def Let_def
        shuntingYard_def isOperator_def popOperators.simps popToParen.simps drainOperators.simps
        hasHigherPrecedence_def getPrecedence_def isNumber_def parseDecimal_def isDigit_def)

lemma reaches_failed_completed:
  "\<exists>(s :: nat Service) x. reaches parseDecimal formatWhole unitTimes
     [Submit ''e1'' ''(1+2)(3+4)'' [''task_1'', ''task_2''],
      Record ''task_1'' 3 [''task_1'', ''task_2''],
      Record ''task_2'' 7 [''task_1'', ''task_2'']]
     [Submitted (Inl TooManyValues), Recorded None, Recorded None] s
     \<and> expressions s ''e1'' = Some x \<and> ExpressionData.Status x = Completed
     \<and> ExpressionData.Result x = Some 7
     \<and> ''task_1'' \<in> rootsOf s ''e1'' \<and> ''task_2'' \<in> rootsOf s ''e1''"
  by (simp add: reaches_def scenario_defs compile_two_groups enumerates_def
      rootsOf_def tasksOf_def) 

text \<open>
  Claim C3 as stated fails: in that run the expression is completed and has two root
  tasks, not one.
\<close>

theorem completed_with_two_roots_counterexample:
  "\<not> (\<forall>operations responses (s :: nat Service) e x.
        reaches parseDecimal formatWhole unitTimes operations responses s
          \<longrightarrow> expressions s e = Some x \<longrightarrow> completedAsStated s e x)"
proof
  assume a: "\<forall>operations responses (s :: nat Service) e x.
        reaches parseDecimal formatWhole unitTimes operations responses s
          \<longrightarrow> expressions s e = Some x \<longrightarrow> completedAsStated s e x"
  from reaches_failed_completed obtain s :: "nat Service" and x where
    r: "reaches parseDecimal formatWhole unitTimes
     [Submit ''e1'' ''(1+2)(3+4)'' [''task_1'', ''task_2''],
      Record ''task_1'' 3 [''task_1'', ''task_2''],
      Record ''task_2'' 7 [''task_1'', ''task_2'']]
     [Submitted (Inl TooManyValues), Recorded None, Recorded None] s"
    and x: "expressions s ''e1'' = Some x" and c: "ExpressionData.Status x = Completed"
    and k: "''task_1'' \<in> rootsOf s ''e1''" "''task_2'' \<in> rootsOf s ''e1''"
    by (elim exE conjE)
  from a r x have "completedAsStated s ''e1'' x" by (elim allE impE) assumption+
  with c obtain k where "rootsOf s ''e1'' = {k}" unfolding completedAsStated_def by blast
  with k have "''task_1'' = k" "''task_2'' = k" by simp_all
  then have "''task_1'' = ''task_2''" by (rule trans[OF _ sym])
  then show False by simp
qed

end
